theory Spec2Isabelle
  imports Main "HOL-Library.AList"
begin

section \<open>Decimal text\<close>

text \<open>
  Redis keeps a counter as the decimal text of an integer, and the handlers build record
  keys from that text (\<^verbatim>\<open>f"{entity}:{entity_id}"\<close>). Values are modelled as
  \<^typ>\<open>string\<close> (one \<^typ>\<open>char\<close> per byte); \<^verbatim>\<open>bytes.decode()\<close> is the identity on
  them, so the model covers values that are valid UTF-8 text and, in \<open>py_int\<close>, the ASCII
  digits and ASCII white space.
\<close>

definition digit_char :: "nat \<Rightarrow> char" where
  "digit_char d = char_of (48 + d)"

definition is_digit :: "char \<Rightarrow> bool" where
  "is_digit ch = (48 \<le> (of_char ch :: nat) \<and> (of_char ch :: nat) \<le> 57)"

definition digit_val :: "char \<Rightarrow> nat" where
  "digit_val ch = of_char ch - 48"

text \<open>\<^verbatim>\<open>str(n)\<close> for a natural number and for an integer.\<close>

fun show_nat :: "nat \<Rightarrow> string" where
  "show_nat n = (if n < 10 then [digit_char n] else show_nat (n div 10) @ [digit_char (n mod 10)])"

declare show_nat.simps [simp del]

definition show_int :: "int \<Rightarrow> string" where
  "show_int i = (if i < 0 then CHR ''-'' # show_nat (nat (- i)) else show_nat (nat i))"

text \<open>The value of a run of decimal digits, most significant first.\<close>

definition dec_val :: "string \<Rightarrow> nat" where
  "dec_val s = foldl (\<lambda>a ch. 10 * a + digit_val ch) 0 s"

text \<open>
  Python's \<^verbatim>\<open>int(text)\<close>: white space is stripped at both ends, one sign is allowed, the
  digits may be grouped by single underscores, leading zeros are allowed. \<open>None\<close> is the
  \<^verbatim>\<open>ValueError\<close>. Digits and white space beyond ASCII, and the limit that newer Python
  versions put on the number of digits, are not modelled; the counters of this program are
  ASCII decimals of at most 19 digits.
\<close>

definition is_space :: "char \<Rightarrow> bool" where
  "is_space ch = ((of_char ch :: nat) \<in> {9, 10, 11, 12, 13, 28, 29, 30, 31, 32})"

definition strip :: "string \<Rightarrow> string" where
  "strip s = rev (dropWhile is_space (rev (dropWhile is_space s)))"

fun valid_digits :: "bool \<Rightarrow> string \<Rightarrow> bool" where
  "valid_digits prev [] = prev"
| "valid_digits prev (ch # cs) =
     (if is_digit ch then valid_digits True cs
      else ch = CHR ''_'' \<and> prev \<and> valid_digits False cs)"

definition py_unsigned :: "string \<Rightarrow> nat option" where
  "py_unsigned s = (if valid_digits False s then Some (dec_val (filter is_digit s)) else None)"

definition py_int :: "string \<Rightarrow> int option" where
  "py_int s =
     (case strip s of
        [] \<Rightarrow> None
      | ch # cs \<Rightarrow>
          if ch = CHR ''-'' then map_option (\<lambda>n. - int n) (py_unsigned cs)
          else if ch = CHR ''+'' then map_option int (py_unsigned cs)
          else map_option int (py_unsigned (ch # cs)))"

text \<open>
  The integer that Redis reads from a stored value for \<^verbatim>\<open>INCR\<close>: the value must be the
  canonical decimal text of a signed 64-bit integer (no white space, no plus sign, no
  leading zero).
\<close>

definition redis_int :: "string \<Rightarrow> int option" where
  "redis_int s =
     (let body = (case s of [] \<Rightarrow> [] | ch # cs \<Rightarrow> if ch = CHR ''-'' then cs else s);
          v = (case s of [] \<Rightarrow> 0 | ch # cs \<Rightarrow>
                 if ch = CHR ''-'' then - int (dec_val cs) else int (dec_val s))
      in if body \<noteq> [] \<and> list_all is_digit body \<and> show_int v = s
            \<and> - (2 ^ 63) \<le> v \<and> v \<le> 2 ^ 63 - 1
         then Some v else None)"

section \<open>The key-value store\<close>

text \<open>
  Modelled from the spec: the external key-value service of section 6 (the Redis server and
  its client library are not part of the repository). It offers get, set and increment on
  counters and the sentinel, hash-set (answering 1 for a new field and 0 for a field that
  existed, whose value is overwritten) and hash-get-all on records, set-add and set-members
  on link sets. The three kinds of value are kept in three tables, one key holding one kind
  of value only (the answer of Redis to an operation on a key of another kind is not part
  of the model); an absent record is the empty field list and an absent link set is the
  empty list. Every call is recorded in
  \<open>calls\<close>, also one that is refused. \<open>down t\<close> says that the connection is refused for
  the call number \<open>t\<close> (counted over the whole run), which is how a connection failure
  reaches a handler.
\<close>

datatype call =
    Get string
  | Set string string
  | Incr string
  | HSet string string string
  | HGetAll string
  | SAdd string string
  | SMembers string

datatype exn = ConnectionError | ResponseError

record redis =
  strs :: "string \<Rightarrow> string option"
  hashes :: "string \<Rightarrow> (string \<times> string) list"
  sets :: "string \<Rightarrow> string list"
  calls :: "call list"
  down :: "nat \<Rightarrow> bool"

type_synonym 'a io = "redis \<Rightarrow> (exn + 'a) \<times> redis"

definition refused :: "redis \<Rightarrow> bool" where
  "refused c = down c (length (calls c))"

definition attempt :: "call \<Rightarrow> redis \<Rightarrow> redis" where
  "attempt x c = c\<lparr>calls := calls c @ [x]\<rparr>"

definition ret :: "'a \<Rightarrow> 'a io" where
  "ret x c = (Inr x, c)"

definition bindE :: "'a io \<Rightarrow> ('a \<Rightarrow> 'b io) \<Rightarrow> 'b io" where
  "bindE m f c = (case m c of (Inl e, c') \<Rightarrow> (Inl e, c') | (Inr x, c') \<Rightarrow> f x c')"

definition r_get :: "string \<Rightarrow> (string option) io" where
  "r_get key c =
     (if refused c then (Inl ConnectionError, attempt (Get key) c)
      else (Inr (strs c key), attempt (Get key) c))"

definition r_set :: "string \<Rightarrow> string \<Rightarrow> unit io" where
  "r_set key v c =
     (if refused c then (Inl ConnectionError, attempt (Set key v) c)
      else (Inr (), attempt (Set key v) (c\<lparr>strs := (strs c)(key \<mapsto> v)\<rparr>)))"

text \<open>
  The value \<^verbatim>\<open>INCR\<close> leaves under a key: 1 for an absent key, the successor of a stored
  integer; \<open>None\<close> where Redis answers with an error (the value is not an integer, or the
  increment would leave the 64-bit range).
\<close>

definition incr_val :: "string option \<Rightarrow> int option" where
  "incr_val old =
     (case old of
        None \<Rightarrow> Some 1
      | Some v \<Rightarrow>
          (case redis_int v of
             None \<Rightarrow> None
           | Some n \<Rightarrow> if n = 2 ^ 63 - 1 then None else Some (n + 1)))"

definition r_incr :: "string \<Rightarrow> int io" where
  "r_incr key c =
     (if refused c then (Inl ConnectionError, attempt (Incr key) c)
      else (case incr_val (strs c key) of
              None \<Rightarrow> (Inl ResponseError, attempt (Incr key) c)
            | Some n \<Rightarrow>
                (Inr n, attempt (Incr key) (c\<lparr>strs := (strs c)(key \<mapsto> show_int n)\<rparr>))))"

definition r_hset :: "string \<Rightarrow> string \<Rightarrow> string \<Rightarrow> int io" where
  "r_hset key field v c =
     (if refused c then (Inl ConnectionError, attempt (HSet key field v) c)
      else (Inr (if map_of (hashes c key) field = None then 1 else 0),
            attempt (HSet key field v)
              (c\<lparr>hashes := (hashes c)(key := AList.update field v (hashes c key))\<rparr>)))"

definition r_hgetall :: "string \<Rightarrow> ((string \<times> string) list) io" where
  "r_hgetall key c =
     (if refused c then (Inl ConnectionError, attempt (HGetAll key) c)
      else (Inr (hashes c key), attempt (HGetAll key) c))"

definition r_sadd :: "string \<Rightarrow> string \<Rightarrow> int io" where
  "r_sadd key member c =
     (if refused c then (Inl ConnectionError, attempt (SAdd key member) c)
      else (Inr (if member \<in> set (sets c key) then 0 else 1),
            attempt (SAdd key member)
              (c\<lparr>sets := (sets c)(key := (if member \<in> set (sets c key) then sets c key
                                           else sets c key @ [member]))\<rparr>)))"

definition r_smembers :: "string \<Rightarrow> (string list) io" where
  "r_smembers key c =
     (if refused c then (Inl ConnectionError, attempt (SMembers key) c)
      else (Inr (sets c key), attempt (SMembers key) c))"

section \<open>Keys\<close>

definition autoid_key :: "string \<Rightarrow> string" where
  "autoid_key entity = entity @ '':autoID''"

definition entity_key :: "string \<Rightarrow> string \<Rightarrow> string" where
  "entity_key entity entity_id = entity @ '':'' @ entity_id"

definition doctor_patient_key :: "string \<Rightarrow> string" where
  "doctor_patient_key doctor_id = ''doctor-patient:'' @ doctor_id"

section \<open>Handlers\<close>

text \<open>
  What a handler answers: a status with the text written, the 400 that Tornado gives when
  \<^verbatim>\<open>get_argument\<close> finds no such argument, or an exception that no \<^verbatim>\<open>except\<close> clause of
  the handler catches.
\<close>

datatype reply =
    Reply nat string
  | MissingArgument string
  | Uncaught exn

type_synonym handler = "redis \<Rightarrow> reply \<times> redis"


text \<open>\<^verbatim>\<open>not raw\<close> for the answer of \<^verbatim>\<open>r.get\<close>: \<^verbatim>\<open>None\<close> or the empty value.\<close>

definition falsy :: "string option \<Rightarrow> bool" where
  "falsy raw = (case raw of None \<Rightarrow> True | Some v \<Rightarrow> v = [])"

text \<open>\<^verbatim>\<open>raw_id.decode() if raw_id else "0"\<close>\<close>

definition decode_id :: "string option \<Rightarrow> string" where
  "decode_id raw_id = (case raw_id of None \<Rightarrow> ''0'' | Some v \<Rightarrow> if v = [] then ''0'' else v)"

definition redis_refused :: reply where
  "redis_refused = Reply 400 ''Redis connection refused''"

definition went_wrong :: reply where
  "went_wrong = Reply 500 ''Something went terribly wrong''"

subsection \<open>BaseHandler._fetch_hash_items\<close>

fun fetch_loop :: "string \<Rightarrow> nat list \<Rightarrow> (string \<times> string) list list \<Rightarrow> ((string \<times> string) list list) io" where
  "fetch_loop entity [] items = ret items"
| "fetch_loop entity (i # rest) items =
     bindE (r_hgetall (entity_key entity (show_int (int i))))
       (\<lambda>result. fetch_loop entity rest (if result \<noteq> [] then items @ [result] else items))"

definition fetch_hash_items :: "string \<Rightarrow> ((string \<times> string) list list) io" where
  "fetch_hash_items entity =
     bindE (r_get (autoid_key entity))
       (\<lambda>raw_auto_id.
          case raw_auto_id of
            None \<Rightarrow> ret []
          | Some v \<Rightarrow>
              if v = [] then ret []
              else (case py_int v of
                      None \<Rightarrow> ret []
                    | Some auto_id \<Rightarrow> fetch_loop entity [0 ..< nat auto_id] []))"

subsection \<open>HospitalHandler.post\<close>

definition hospital_try :: "string \<Rightarrow> string \<Rightarrow> string \<Rightarrow> string \<Rightarrow> (string \<times> int) io" where
  "hospital_try name address beds_number phone =
     bindE (r_get (autoid_key ''hospital'')) (\<lambda>raw_id.
     let hospital_id = decode_id raw_id in
     bindE (r_hset (entity_key ''hospital'' hospital_id) ''name'' name) (\<lambda>w1.
     bindE (r_hset (entity_key ''hospital'' hospital_id) ''address'' address) (\<lambda>w2.
     bindE (r_hset (entity_key ''hospital'' hospital_id) ''phone'' phone) (\<lambda>w3.
     bindE (r_hset (entity_key ''hospital'' hospital_id) ''beds_number'' beds_number) (\<lambda>w4.
     bindE (r_incr (autoid_key ''hospital'')) (\<lambda>_.
     ret (hospital_id, w1 + w2 + w3 + w4)))))))"

definition hospital_post :: "string \<Rightarrow> string \<Rightarrow> string \<Rightarrow> string \<Rightarrow> handler" where
  "hospital_post name address beds_number phone c =
     (if name = [] \<or> address = [] then (Reply 400 ''Hospital name and address required'', c)
      else (case hospital_try name address beds_number phone c of
              (Inl ConnectionError, c') \<Rightarrow> (redis_refused, c')
            | (Inl ResponseError, c') \<Rightarrow> (Uncaught ResponseError, c')
            | (Inr (hospital_id, write_count), c') \<Rightarrow>
                if write_count \<noteq> 4 then (went_wrong, c')
                else (Reply 200 (''OK: ID '' @ hospital_id @ '' for '' @ name), c')))"


subsection \<open>DoctorHandler.post\<close>

text \<open>\<open>Inl\<close> is the reply of a \<^verbatim>\<open>return\<close> inside the \<^verbatim>\<open>try\<close> block.\<close>

definition doctor_try :: "string \<Rightarrow> string \<Rightarrow> string \<Rightarrow> (reply + string \<times> int) io" where
  "doctor_try surname profession hospital_ID =
     bindE (r_get (autoid_key ''doctor'')) (\<lambda>raw_id.
     let doctor_id = decode_id raw_id in
     bindE (if hospital_ID \<noteq> []
            then bindE (r_hgetall (entity_key ''hospital'' hospital_ID)) (\<lambda>hospital. ret (hospital = []))
            else ret False) (\<lambda>no_hospital.
     if no_hospital then ret (Inl (Reply 400 ''No hospital with such ID''))
     else
     bindE (r_hset (entity_key ''doctor'' doctor_id) ''surname'' surname) (\<lambda>w1.
     bindE (r_hset (entity_key ''doctor'' doctor_id) ''profession'' profession) (\<lambda>w2.
     bindE (r_hset (entity_key ''doctor'' doctor_id) ''hospital_ID'' hospital_ID) (\<lambda>w3.
     bindE (r_incr (autoid_key ''doctor'')) (\<lambda>_.
     ret (Inr (doctor_id, w1 + w2 + w3))))))))"

definition doctor_post :: "string \<Rightarrow> string \<Rightarrow> string \<Rightarrow> handler" where
  "doctor_post surname profession hospital_ID c =
     (if surname = [] \<or> profession = [] then (Reply 400 ''Surname and profession required'', c)
      else (case doctor_try surname profession hospital_ID c of
              (Inl ConnectionError, c') \<Rightarrow> (redis_refused, c')
            | (Inl ResponseError, c') \<Rightarrow> (Uncaught ResponseError, c')
            | (Inr (Inl early), c') \<Rightarrow> (early, c')
            | (Inr (Inr (doctor_id, write_count)), c') \<Rightarrow>
                if write_count \<noteq> 3 then (went_wrong, c')
                else (Reply 200 (''OK: ID '' @ doctor_id @ '' for '' @ surname), c')))"


subsection \<open>PatientHandler.post\<close>

definition patient_try :: "string \<Rightarrow> string \<Rightarrow> string \<Rightarrow> string \<Rightarrow> (string \<times> int) io" where
  "patient_try surname born_date sex mpn =
     bindE (r_get (autoid_key ''patient'')) (\<lambda>raw_id.
     let patient_id = decode_id raw_id in
     bindE (r_hset (entity_key ''patient'' patient_id) ''surname'' surname) (\<lambda>w1.
     bindE (r_hset (entity_key ''patient'' patient_id) ''born_date'' born_date) (\<lambda>w2.
     bindE (r_hset (entity_key ''patient'' patient_id) ''sex'' sex) (\<lambda>w3.
     bindE (r_hset (entity_key ''patient'' patient_id) ''mpn'' mpn) (\<lambda>w4.
     bindE (r_incr (autoid_key ''patient'')) (\<lambda>_.
     ret (patient_id, w1 + w2 + w3 + w4)))))))"

definition sex_message :: string where
  "sex_message = ''Sex must be '' @ [CHR 0x27] @ ''M'' @ [CHR 0x27] @ '' or '' @ [CHR 0x27] @ ''F'' @ [CHR 0x27]"

definition patient_post :: "string \<Rightarrow> string \<Rightarrow> string \<Rightarrow> string \<Rightarrow> handler" where
  "patient_post surname born_date sex mpn c =
     (if surname = [] \<or> born_date = [] \<or> sex = [] \<or> mpn = [] then (Reply 400 ''All fields required'', c)
      else if sex \<notin> set [''M'', ''F''] then (Reply 400 sex_message, c)
      else (case patient_try surname born_date sex mpn c of
              (Inl ConnectionError, c') \<Rightarrow> (redis_refused, c')
            | (Inl ResponseError, c') \<Rightarrow> (Uncaught ResponseError, c')
            | (Inr (patient_id, write_count), c') \<Rightarrow>
                if write_count \<noteq> 4 then (went_wrong, c')
                else (Reply 200 (''OK: ID '' @ patient_id @ '' for '' @ surname), c')))"


subsection \<open>DiagnosisHandler.post\<close>

definition diagnosis_try :: "string \<Rightarrow> string \<Rightarrow> string \<Rightarrow> (reply + string \<times> int \<times> (string \<times> string) list) io" where
  "diagnosis_try patient_ID diagnosis_type information =
     bindE (r_get (autoid_key ''diagnosis'')) (\<lambda>raw_id.
     let diagnosis_id = decode_id raw_id in
     bindE (r_hgetall (entity_key ''patient'' patient_ID)) (\<lambda>patient.
     if patient = [] then ret (Inl (Reply 400 ''No patient with such ID''))
     else
     bindE (r_hset (entity_key ''diagnosis'' diagnosis_id) ''patient_ID'' patient_ID) (\<lambda>w1.
     bindE (r_hset (entity_key ''diagnosis'' diagnosis_id) ''type'' diagnosis_type) (\<lambda>w2.
     bindE (r_hset (entity_key ''diagnosis'' diagnosis_id) ''information'' information) (\<lambda>w3.
     bindE (r_incr (autoid_key ''diagnosis'')) (\<lambda>_.
     ret (Inr (diagnosis_id, w1 + w2 + w3, patient))))))))"

definition diagnosis_post :: "string \<Rightarrow> string \<Rightarrow> string \<Rightarrow> handler" where
  "diagnosis_post patient_ID diagnosis_type information c =
     (if patient_ID = [] \<or> diagnosis_type = [] then (Reply 400 ''Patiend ID and diagnosis type required'', c)
      else (case diagnosis_try patient_ID diagnosis_type information c of
              (Inl ConnectionError, c') \<Rightarrow> (redis_refused, c')
            | (Inl ResponseError, c') \<Rightarrow> (Uncaught ResponseError, c')
            | (Inr (Inl early), c') \<Rightarrow> (early, c')
            | (Inr (Inr (diagnosis_id, write_count, patient)), c') \<Rightarrow>
                if write_count \<noteq> 3 then (went_wrong, c')
                else (Reply 200 (''OK: ID '' @ diagnosis_id @ '' for patient ''
                        @ (case map_of patient ''surname'' of None \<Rightarrow> [] | Some v \<Rightarrow> v)), c')))"


subsection \<open>DoctorPatientHandler.post\<close>

definition doctor_patient_try :: "string \<Rightarrow> string \<Rightarrow> (reply + unit) io" where
  "doctor_patient_try doctor_ID patient_ID =
     bindE (r_hgetall (entity_key ''patient'' patient_ID)) (\<lambda>patient.
     bindE (r_hgetall (entity_key ''doctor'' doctor_ID)) (\<lambda>doctor.
     if patient = [] \<or> doctor = [] then ret (Inl (Reply 400 ''No such ID for doctor or patient''))
     else
     bindE (r_sadd (doctor_patient_key doctor_ID) patient_ID) (\<lambda>_.
     ret (Inr ()))))"

definition doctor_patient_post :: "string \<Rightarrow> string \<Rightarrow> handler" where
  "doctor_patient_post doctor_ID patient_ID c =
     (if doctor_ID = [] \<or> patient_ID = [] then (Reply 400 ''ID required'', c)
      else (case doctor_patient_try doctor_ID patient_ID c of
              (Inl ConnectionError, c') \<Rightarrow> (redis_refused, c')
            | (Inl ResponseError, c') \<Rightarrow> (Uncaught ResponseError, c')
            | (Inr (Inl early), c') \<Rightarrow> (early, c')
            | (Inr (Inr _), c') \<Rightarrow>
                (Reply 200 (''OK: doctor ID: '' @ doctor_ID @ '', patient ID: '' @ patient_ID), c')))"


subsection \<open>init_db\<close>

text \<open>How start-up ends: the store is ready, or \<^verbatim>\<open>sys.exit(1)\<close>, or an uncaught exception.\<close>

datatype startup = Ready | Exit nat | Crash exn

definition init_db_try :: "unit io" where
  "init_db_try =
     bindE (r_get ''db_initiated'') (\<lambda>db_initiated.
     if falsy db_initiated then
       bindE (r_set (autoid_key ''hospital'') ''1'') (\<lambda>_.
       bindE (r_set (autoid_key ''doctor'') ''1'') (\<lambda>_.
       bindE (r_set (autoid_key ''patient'') ''1'') (\<lambda>_.
       bindE (r_set (autoid_key ''diagnosis'') ''1'') (\<lambda>_.
       r_set ''db_initiated'' ''1''))))
     else ret ())"

definition init_db :: "redis \<Rightarrow> startup \<times> redis" where
  "init_db c =
     (case init_db_try c of
        (Inl ConnectionError, c') \<Rightarrow> (Exit 1, c')
      | (Inl ResponseError, c') \<Rightarrow> (Crash ResponseError, c')
      | (Inr _, c') \<Rightarrow> (Ready, c'))"

subsection \<open>make_app\<close>


section \<open>The create operations as one operation\<close>

text \<open>
  The four record types, and a create request for each: \<open>create\<close> is the \<^verbatim>\<open>post\<close> method of
  the handler that \<^verbatim>\<open>make_app\<close> routes the request to, on the values \<^verbatim>\<open>get_argument\<close>
  returned. \<open>fields_of\<close> lists the fields of the request in the order the handler writes
  them.
\<close>

datatype entity = Hospital | Doctor | Patient | Diagnosis

fun entity_name :: "entity \<Rightarrow> string" where
  "entity_name Hospital = ''hospital''"
| "entity_name Doctor = ''doctor''"
| "entity_name Patient = ''patient''"
| "entity_name Diagnosis = ''diagnosis''"

datatype request =
    NewHospital string string string string
  | NewDoctor string string string
  | NewPatient string string string string
  | NewDiagnosis string string string

fun create :: "request \<Rightarrow> handler" where
  "create (NewHospital name address beds_number phone) = hospital_post name address beds_number phone"
| "create (NewDoctor surname profession hospital_ID) = doctor_post surname profession hospital_ID"
| "create (NewPatient surname born_date sex mpn) = patient_post surname born_date sex mpn"
| "create (NewDiagnosis patient_ID diagnosis_type information) =
     diagnosis_post patient_ID diagnosis_type information"

fun entity_of :: "request \<Rightarrow> entity" where
  "entity_of (NewHospital name address beds_number phone) = Hospital"
| "entity_of (NewDoctor surname profession hospital_ID) = Doctor"
| "entity_of (NewPatient surname born_date sex mpn) = Patient"
| "entity_of (NewDiagnosis patient_ID diagnosis_type information) = Diagnosis"

fun fields_of :: "request \<Rightarrow> (string \<times> string) list" where
  "fields_of (NewHospital name address beds_number phone) =
     [(''name'', name), (''address'', address), (''phone'', phone), (''beds_number'', beds_number)]"
| "fields_of (NewDoctor surname profession hospital_ID) =
     [(''surname'', surname), (''profession'', profession), (''hospital_ID'', hospital_ID)]"
| "fields_of (NewPatient surname born_date sex mpn) =
     [(''surname'', surname), (''born_date'', born_date), (''sex'', sex), (''mpn'', mpn)]"
| "fields_of (NewDiagnosis patient_ID diagnosis_type information) =
     [(''patient_ID'', patient_ID), (''type'', diagnosis_type), (''information'', information)]"

text \<open>
  A request is accepted when it passes the handler's checks on its fields and the record it
  refers to, where the handler looks one up, is present.
\<close>

fun accepted :: "request \<Rightarrow> redis \<Rightarrow> bool" where
  "accepted (NewHospital name address beds_number phone) c = (name \<noteq> [] \<and> address \<noteq> [])"
| "accepted (NewDoctor surname profession hospital_ID) c =
     (surname \<noteq> [] \<and> profession \<noteq> [] \<and>
      (hospital_ID = [] \<or> hashes c (entity_key ''hospital'' hospital_ID) \<noteq> []))"
| "accepted (NewPatient surname born_date sex mpn) c =
     (surname \<noteq> [] \<and> born_date \<noteq> [] \<and> mpn \<noteq> [] \<and> (sex = ''M'' \<or> sex = ''F''))"
| "accepted (NewDiagnosis patient_ID diagnosis_type information) c =
     (patient_ID \<noteq> [] \<and> diagnosis_type \<noteq> [] \<and> hashes c (entity_key ''patient'' patient_ID) \<noteq> [])"

definition counter :: "entity \<Rightarrow> redis \<Rightarrow> string option" where
  "counter E c = strs c (autoid_key (entity_name E))"

text \<open>The key of the record that a create of type \<open>E\<close> writes in the state \<open>c\<close>.\<close>

definition record_key :: "entity \<Rightarrow> redis \<Rightarrow> string" where
  "record_key E c = entity_key (entity_name E) (decode_id (counter E c))"

subsection \<open>Kinds of reply\<close>

definition is_ok :: "reply \<Rightarrow> bool" where
  "is_ok rep = (case rep of Reply st msg \<Rightarrow> st = 200 | _ \<Rightarrow> False)"

text \<open>The operation ended in an exception of the store: the connection was refused, or Redis
  answered with an error that the handler does not catch.\<close>

definition is_exn :: "reply \<Rightarrow> bool" where
  "is_exn rep = (case rep of Uncaught e \<Rightarrow> True | _ \<Rightarrow> rep = redis_refused)"


subsection \<open>Runs and the calls they make\<close>

fun run :: "request list \<Rightarrow> redis \<Rightarrow> redis" where
  "run [] c = c"
| "run (r # rs) c = run rs (snd (create r c))"

fun replies :: "request list \<Rightarrow> redis \<Rightarrow> reply list" where
  "replies [] c = []"
| "replies (r # rs) c = fst (create r c) # replies rs (snd (create r c))"

text \<open>The calls an operation added to the log, and the keys of the field writes among them.\<close>

definition new_calls :: "redis \<Rightarrow> redis \<Rightarrow> call list" where
  "new_calls c c' = drop (length (calls c)) (calls c')"




subsection \<open>The field writes of a create, as one loop\<close>

fun hset_all :: "string \<Rightarrow> (string \<times> string) list \<Rightarrow> int io" where
  "hset_all key [] = ret 0"
| "hset_all key (fv # fs) =
     bindE (r_hset key (fst fv) (snd fv)) (\<lambda>w. bindE (hset_all key fs) (\<lambda>ws. ret (w + ws)))"

definition gen_writes :: "string \<Rightarrow> string option \<Rightarrow> (string \<times> string) list \<Rightarrow> (string \<Rightarrow> int \<Rightarrow> 'a) \<Rightarrow> 'a io" where
  "gen_writes entity raw_id fs k =
     bindE (hset_all (entity_key entity (decode_id raw_id)) fs) (\<lambda>w.
     bindE (r_incr (autoid_key entity)) (\<lambda>_. ret (k (decode_id raw_id) w)))"

text \<open>What the writes of the fields \<open>fs\<close> answer in sum, and the record they leave.\<close>

fun count_new :: "(string \<times> string) list \<Rightarrow> (string \<times> string) list \<Rightarrow> int" where
  "count_new [] h = 0"
| "count_new (fv # fs) h =
     (if map_of h (fst fv) = None then 1 else 0) + count_new fs (AList.update (fst fv) (snd fv) h)"

fun write_fields :: "(string \<times> string) list \<Rightarrow> (string \<times> string) list \<Rightarrow> (string \<times> string) list" where
  "write_fields [] h = h"
| "write_fields (fv # fs) h = write_fields fs (AList.update (fst fv) (snd fv) h)"

definition hset_calls :: "string \<Rightarrow> (string \<times> string) list \<Rightarrow> call list" where
  "hset_calls key fs = map (\<lambda>fv. HSet key (fst fv) (snd fv)) fs"

text \<open>The connection is not refused during the next \<open>n\<close> calls.\<close>

definition up :: "redis \<Rightarrow> nat \<Rightarrow> bool" where
  "up c n = (\<forall>j < n. \<not> down c (length (calls c) + j))"

text \<open>
  The body of a create handler: read the counter, look a referenced record up where the
  handler does (\<open>ref\<close> is its key and the text of the reply when it is absent), write the
  fields, increment the counter. \<open>ke\<close> and \<open>ko\<close> build the handler's own results.
\<close>

definition gen_try :: "string \<Rightarrow> (string \<times> string) option \<Rightarrow> (string \<times> string) list
    \<Rightarrow> (string \<Rightarrow> 'a) \<Rightarrow> ((string \<times> string) list \<Rightarrow> string \<Rightarrow> int \<Rightarrow> 'a) \<Rightarrow> 'a io" where
  "gen_try entity ref fs ke ko =
     bindE (r_get (autoid_key entity)) (\<lambda>raw_id.
       case ref of
         None \<Rightarrow> gen_writes entity raw_id fs (ko [])
       | Some (key, msg) \<Rightarrow>
           bindE (r_hgetall key) (\<lambda>found.
             if found = [] then ret (ke msg) else gen_writes entity raw_id fs (ko found)))"

text \<open>The record a create handler looks up before it writes, with the reply for its absence.\<close>

fun ref_of :: "request \<Rightarrow> (string \<times> string) option" where
  "ref_of (NewHospital name address beds_number phone) = None"
| "ref_of (NewDoctor surname profession hospital_ID) =
     (if hospital_ID \<noteq> [] then Some (entity_key ''hospital'' hospital_ID, ''No hospital with such ID'')
      else None)"
| "ref_of (NewPatient surname born_date sex mpn) = None"
| "ref_of (NewDiagnosis patient_ID diagnosis_type information) =
     Some (entity_key ''patient'' patient_ID, ''No patient with such ID'')"

definition ref_reads :: "(string \<times> string) option \<Rightarrow> call list" where
  "ref_reads ref = (case ref of None \<Rightarrow> [] | Some (key, msg) \<Rightarrow> [HGetAll key])"

definition ref_found :: "(string \<times> string) option \<Rightarrow> redis \<Rightarrow> (string \<times> string) list" where
  "ref_found ref c = (case ref of None \<Rightarrow> [] | Some (key, msg) \<Rightarrow> hashes c key)"

definition ref_ok :: "(string \<times> string) option \<Rightarrow> redis \<Rightarrow> bool" where
  "ref_ok ref c = (case ref of None \<Rightarrow> True | Some (key, msg) \<Rightarrow> hashes c key \<noteq> [])"

text \<open>
  The \<^verbatim>\<open>except\<close> and \<^verbatim>\<open>else\<close> clauses of a handler: a refused connection is answered with
  400, any other exception leaves the handler, and a result is answered by \<open>out\<close>.
\<close>

definition finish :: "('a \<Rightarrow> reply) \<Rightarrow> (exn + 'a) \<times> redis \<Rightarrow> reply \<times> redis" where
  "finish out p =
     (case p of
        (Inl ConnectionError, c') \<Rightarrow> (redis_refused, c')
      | (Inl ResponseError, c') \<Rightarrow> (Uncaught ResponseError, c')
      | (Inr x, c') \<Rightarrow> (out x, c'))"

text \<open>The text of the 400 that the handler's checks on the fields give, if they give one.\<close>

fun rejection :: "request \<Rightarrow> string option" where
  "rejection (NewHospital name address beds_number phone) =
     (if name = [] \<or> address = [] then Some ''Hospital name and address required'' else None)"
| "rejection (NewDoctor surname profession hospital_ID) =
     (if surname = [] \<or> profession = [] then Some ''Surname and profession required'' else None)"
| "rejection (NewPatient surname born_date sex mpn) =
     (if surname = [] \<or> born_date = [] \<or> sex = [] \<or> mpn = [] then Some ''All fields required''
      else if sex \<notin> set [''M'', ''F''] then Some sex_message else None)"
| "rejection (NewDiagnosis patient_ID diagnosis_type information) =
     (if patient_ID = [] \<or> diagnosis_type = [] then Some ''Patiend ID and diagnosis type required''
      else None)"

text \<open>The text of the 200 reply for the identifier \<open>i\<close>, given the record that was looked up.\<close>

fun ok_text :: "request \<Rightarrow> (string \<times> string) list \<Rightarrow> string \<Rightarrow> string" where
  "ok_text (NewHospital name address beds_number phone) found i = ''OK: ID '' @ i @ '' for '' @ name"
| "ok_text (NewDoctor surname profession hospital_ID) found i = ''OK: ID '' @ i @ '' for '' @ surname"
| "ok_text (NewPatient surname born_date sex mpn) found i = ''OK: ID '' @ i @ '' for '' @ surname"
| "ok_text (NewDiagnosis patient_ID diagnosis_type information) found i =
     ''OK: ID '' @ i @ '' for patient '' @ (case map_of found ''surname'' of None \<Rightarrow> [] | Some v \<Rightarrow> v)"

subsection \<open>Concrete states\<close>

text \<open>The empty store with a connection that is never refused, and its bootstrapped state.\<close>

definition empty_store :: redis where
  "empty_store = \<lparr>strs = (\<lambda>key. None), hashes = (\<lambda>key. []), sets = (\<lambda>key. []), calls = [],
                   down = (\<lambda>t. False)\<rparr>"

definition booted :: redis where
  "booted = snd (init_db empty_store)"

text \<open>The same, with the connection refused for the call number \<open>t\<close> only.\<close>

definition booted_failing :: "nat \<Rightarrow> redis" where
  "booted_failing t = snd (init_db (empty_store\<lparr>down := (\<lambda>u. u = t)\<rparr>))"

definition hospital_A :: request where
  "hospital_A = NewHospital ''A'' ''B'' ''10'' ''1''"

subsection \<open>Required fields\<close>



text \<open>The members of the link set of a doctor: what \<^verbatim>\<open>smembers\<close> answers for its key.\<close>

definition members :: "string \<Rightarrow> redis \<Rightarrow> string set" where
  "members doctor_id c = set (sets c (doctor_patient_key doctor_id))"

text \<open>A patient, a doctor, and the link between them, created in the bootstrapped store.\<close>

definition linked_state :: redis where
  "linked_state = snd (doctor_patient_post ''1'' ''1''
     (snd (create (NewDoctor ''X'' ''Y'' [])
        (snd (create (NewPatient ''P'' ''2000'' ''M'' ''7'') booted)))))"

definition hospital_B :: request where
  "hospital_B = NewHospital ''C'' ''D'' ''20'' ''2''"

text \<open>The state of the records of type \<open>E\<close> after the creates that wrote \<open>recs\<close>.\<close>

definition holds :: "entity \<Rightarrow> redis \<Rightarrow> (string \<times> string) list list \<Rightarrow> bool" where
  "holds E c recs =
     (counter E c = Some (show_nat (Suc (length recs))) \<and>
      (\<forall>j. hashes c (entity_key (entity_name E) (show_nat j)) =
            (if 1 \<le> j \<and> j \<le> length recs then recs ! (j - 1) else [])))"

section \<open>Decimal text: printing and reading back\<close>

lemma digit_char_is_digit: "d < 10 \<Longrightarrow> is_digit (digit_char d)"
  by (simp add: is_digit_def digit_char_def)

lemma digit_val_digit_char: "d < 10 \<Longrightarrow> digit_val (digit_char d) = d"
  by (simp add: digit_val_def digit_char_def)

lemma show_nat_digits: "list_all is_digit (show_nat n)"
proof (induction n rule: show_nat.induct)
  case (1 n)
  show ?case
  proof (cases "n < 10")
    case True
    then show ?thesis by (simp add: show_nat.simps [of n] digit_char_is_digit)
  next
    case False
    with 1 show ?thesis by (simp add: show_nat.simps [of n] digit_char_is_digit)
  qed
qed

lemma show_nat_nonempty: "show_nat n \<noteq> []"
  by (simp add: show_nat.simps [of n])

lemma dec_val_snoc: "dec_val (s @ [ch]) = 10 * dec_val s + digit_val ch"
  by (simp add: dec_val_def)

lemma dec_val_show_nat: "dec_val (show_nat n) = n"
proof (induction n rule: show_nat.induct)
  case (1 n)
  show ?case
  proof (cases "n < 10")
    case True
    then show ?thesis by (simp add: show_nat.simps [of n] dec_val_def digit_val_digit_char)
  next
    case False
    with 1 show ?thesis by (simp add: show_nat.simps [of n] dec_val_snoc digit_val_digit_char)
  qed
qed

lemma show_nat_inj: "show_nat m = show_nat n \<Longrightarrow> m = n"
  by (metis dec_val_show_nat)

lemma valid_digits_all: "list_all is_digit s \<Longrightarrow> valid_digits prev s = (prev \<or> s \<noteq> [])"
  by (induction s arbitrary: prev) auto

lemma filter_digits_all: "list_all is_digit s \<Longrightarrow> filter is_digit s = s"
  by (induction s) auto

lemma py_unsigned_show_nat: "py_unsigned (show_nat n) = Some n"
  by (simp add: py_unsigned_def valid_digits_all show_nat_digits show_nat_nonempty
      filter_digits_all dec_val_show_nat)

lemma digit_not_space: "is_digit ch \<Longrightarrow> \<not> is_space ch"
  by (auto simp: is_digit_def is_space_def)

lemma strip_digits: "list_all is_digit s \<Longrightarrow> strip s = s"
proof (cases s rule: rev_cases)
  case Nil
  then show ?thesis by (simp add: strip_def)
next
  case (snoc xs x)
  assume "list_all is_digit s"
  with snoc have x: "\<not> is_space x" and h: "\<not> is_space (hd (xs @ [x]))"
    by (cases xs; simp add: digit_not_space)+
  from h have "dropWhile is_space (xs @ [x]) = xs @ [x]"
    by (cases xs) auto
  with x snoc show ?thesis by (simp add: strip_def)
qed

lemma show_nat_first:
  obtains ch cs where "show_nat n = ch # cs" "is_digit ch" "ch \<noteq> CHR ''-''" "ch \<noteq> CHR ''+''"
proof -
  obtain ch cs where e: "show_nat n = ch # cs"
    using show_nat_nonempty [of n] by (cases "show_nat n") auto
  have d: "is_digit ch" using show_nat_digits [of n] e by simp
  then have "ch \<noteq> CHR ''-''" "ch \<noteq> CHR ''+''" by (auto simp: is_digit_def)
  with e d that show ?thesis by blast
qed

lemma py_int_show_nat: "py_int (show_nat n) = Some (int n)"
proof -
  obtain ch cs where e: "show_nat n = ch # cs" and s: "ch \<noteq> CHR ''-''" "ch \<noteq> CHR ''+''"
    by (rule show_nat_first)
  have "strip (ch # cs) = ch # cs"
    using strip_digits [OF show_nat_digits [of n]] e by simp
  with s show ?thesis using py_unsigned_show_nat [of n] e
    by (simp add: py_int_def)
qed

lemma redis_int_show_nat:
  "redis_int (show_nat n) = (if int n \<le> 2 ^ 63 - 1 then Some (int n) else None)"
proof -
  obtain ch cs where e: "show_nat n = ch # cs" and m: "ch \<noteq> CHR ''-''"
    by (rule show_nat_first)
  have v: "dec_val (ch # cs) = n" using dec_val_show_nat [of n] e by simp
  have a: "list_all is_digit (ch # cs)" using show_nat_digits [of n] e by simp
  show ?thesis using m v a e
    by (simp add: redis_int_def show_int_def Let_def)
qed

lemma show_int_nat [simp]: "show_int (int n) = show_nat n"
  by (simp add: show_int_def)

lemma incr_val_show_nat:
  "incr_val (Some (show_nat n)) = (if int n < 2 ^ 63 - 1 then Some (int n + 1) else None)"
  by (simp add: incr_val_def redis_int_show_nat)

lemma decode_id_show_nat [simp]: "decode_id (Some (show_nat n)) = show_nat n"
  by (simp add: decode_id_def show_nat_nonempty)

lemma show_nat_1: "show_nat (Suc 0) = ''1''"
  by code_simp

section \<open>The store operations\<close>

lemma attempt_simps [simp]:
  "strs (attempt x c) = strs c" "hashes (attempt x c) = hashes c" "sets (attempt x c) = sets c"
  "down (attempt x c) = down c" "calls (attempt x c) = calls c @ [x]"
  by (simp_all add: attempt_def)

lemma bindE_assoc: "bindE (bindE m f) g = bindE m (\<lambda>x. bindE (f x) g)"
  by (auto simp: bindE_def fun_eq_iff split: prod.splits sum.splits)

lemma bindE_ret: "bindE (ret x) f = f x"
  by (simp add: bindE_def ret_def fun_eq_iff)

lemma bindE_Inr:
  "bindE m f c = (Inr y, c') \<longleftrightarrow> (\<exists>x c1. m c = (Inr x, c1) \<and> f x c1 = (Inr y, c'))"
  by (auto simp: bindE_def split: prod.splits sum.splits)

lemma bindE_Inl:
  "bindE m f c = (Inl e, c') \<longleftrightarrow>
     m c = (Inl e, c') \<or> (\<exists>x c1. m c = (Inr x, c1) \<and> f x c1 = (Inl e, c'))"
  by (auto simp: bindE_def split: prod.splits sum.splits)

lemma ret_eq [simp]: "ret x c = (r, c') \<longleftrightarrow> r = Inr x \<and> c' = c"
  by (auto simp: ret_def)

lemma r_get_Inr:
  "r_get key c = (Inr raw, c') \<longleftrightarrow> \<not> refused c \<and> raw = strs c key \<and> c' = attempt (Get key) c"
  by (auto simp: r_get_def)

lemma r_get_Inl:
  "r_get key c = (Inl e, c') \<longleftrightarrow> refused c \<and> e = ConnectionError \<and> c' = attempt (Get key) c"
  by (auto simp: r_get_def)

lemma r_hgetall_Inr:
  "r_hgetall key c = (Inr h, c') \<longleftrightarrow> \<not> refused c \<and> h = hashes c key \<and> c' = attempt (HGetAll key) c"
  by (auto simp: r_hgetall_def)

lemma r_hgetall_Inl:
  "r_hgetall key c = (Inl e, c') \<longleftrightarrow> refused c \<and> e = ConnectionError \<and> c' = attempt (HGetAll key) c"
  by (auto simp: r_hgetall_def)

lemma r_hset_Inr:
  "r_hset key f v c = (Inr w, c') \<longleftrightarrow>
     \<not> refused c \<and> w = (if map_of (hashes c key) f = None then 1 else 0) \<and>
     c' = attempt (HSet key f v) (c\<lparr>hashes := (hashes c)(key := AList.update f v (hashes c key))\<rparr>)"
  by (auto simp: r_hset_def)

lemma r_hset_Inl:
  "r_hset key f v c = (Inl e, c') \<longleftrightarrow> refused c \<and> e = ConnectionError \<and> c' = attempt (HSet key f v) c"
  by (auto simp: r_hset_def)

lemma r_incr_Inr:
  "r_incr key c = (Inr n, c') \<longleftrightarrow>
     \<not> refused c \<and> incr_val (strs c key) = Some n \<and>
     c' = attempt (Incr key) (c\<lparr>strs := (strs c)(key \<mapsto> show_int n)\<rparr>)"
  by (auto simp: r_incr_def split: option.splits)

lemma r_incr_Inl:
  "r_incr key c = (Inl e, c') \<longleftrightarrow>
     c' = attempt (Incr key) c \<and>
     (if refused c then e = ConnectionError else e = ResponseError \<and> incr_val (strs c key) = None)"
  by (auto simp: r_incr_def split: option.splits)

section \<open>The field writes\<close>

lemma hset_all_Inr:
  "hset_all key fs c = (Inr w, c') \<Longrightarrow>
     w = count_new fs (hashes c key) \<and>
     c' = c\<lparr>hashes := (hashes c)(key := write_fields fs (hashes c key)),
            calls := calls c @ hset_calls key fs\<rparr>"
proof (induction fs arbitrary: c w)
  case Nil
  then show ?case by (simp add: hset_calls_def)
next
  case (Cons fv fs)
  from Cons.prems obtain w1 c1 w2 where
    a: "r_hset key (fst fv) (snd fv) c = (Inr w1, c1)" and
    b: "hset_all key fs c1 = (Inr w2, c')" and w: "w = w1 + w2"
    by (auto simp: bindE_Inr)
  from a have c1: "c1 = attempt (HSet key (fst fv) (snd fv))
      (c\<lparr>hashes := (hashes c)(key := AList.update (fst fv) (snd fv) (hashes c key))\<rparr>)"
    and w1: "w1 = (if map_of (hashes c key) (fst fv) = None then 1 else 0)"
    by (simp_all add: r_hset_Inr)
  from Cons.IH [OF b] show ?case
    by (simp add: c1 w w1 hset_calls_def attempt_def cong: if_cong)
qed

lemma hset_all_Inl:
  "hset_all key fs c = (Inl e, c') \<Longrightarrow>
     e = ConnectionError \<and> strs c' = strs c \<and> sets c' = sets c \<and> down c' = down c \<and>
     (\<forall>k. k \<noteq> key \<longrightarrow> hashes c' k = hashes c k) \<and>
     (\<exists>new. calls c' = calls c @ new)"
proof (induction fs arbitrary: c)
  case Nil
  then show ?case by simp
next
  case (Cons fv fs)
  from Cons.prems consider
    (first) "r_hset key (fst fv) (snd fv) c = (Inl e, c')"
  | (later) w1 c1 where "r_hset key (fst fv) (snd fv) c = (Inr w1, c1)" "hset_all key fs c1 = (Inl e, c')"
    by (auto simp: bindE_Inl)
  then show ?case
  proof cases
    case first
    then show ?thesis by (simp add: r_hset_Inl)
  next
    case later
    from Cons.IH [OF later(2)] later(1) show ?thesis
      by (auto simp: r_hset_Inr)
  qed
qed

lemma hset_all_total:
  "up c (length fs) \<Longrightarrow> \<exists>w c'. hset_all key fs c = (Inr w, c')"
proof (induction fs arbitrary: c)
  case Nil
  then show ?case by simp
next
  case (Cons fv fs)
  from Cons.prems have r: "\<not> refused c" by (auto simp: refused_def up_def)
  define c1 where "c1 = attempt (HSet key (fst fv) (snd fv))
      (c\<lparr>hashes := (hashes c)(key := AList.update (fst fv) (snd fv) (hashes c key))\<rparr>)"
  have "up c1 (length fs)"
    using Cons.prems by (auto simp: c1_def up_def)
  from Cons.IH [OF this] obtain w c' where "hset_all key fs c1 = (Inr w, c')" by blast
  with r show ?case by (simp add: bindE_Inr r_hset_Inr c1_def)
qed

section \<open>The body of a create handler\<close>

lemma gen_writes_Inr:
  assumes "gen_writes e raw fs k c = (Inr x, c')"
  shows "x = k (decode_id raw) (count_new fs (hashes c (entity_key e (decode_id raw))))"
    and "\<exists>n. incr_val (strs c (autoid_key e)) = Some n \<and> strs c' = (strs c)(autoid_key e \<mapsto> show_int n)"
    and "hashes c' = (hashes c)(entity_key e (decode_id raw) :=
           write_fields fs (hashes c (entity_key e (decode_id raw))))"
    and "sets c' = sets c" and "down c' = down c"
    and "calls c' = calls c @ hset_calls (entity_key e (decode_id raw)) fs @ [Incr (autoid_key e)]"
proof -
  from assms obtain w c1 n where
    a: "hset_all (entity_key e (decode_id raw)) fs c = (Inr w, c1)" and
    b: "r_incr (autoid_key e) c1 = (Inr n, c')" and x: "x = k (decode_id raw) w"
    by (auto simp: gen_writes_def bindE_Inr)
  note h = hset_all_Inr [OF a]
  from h have c1: "strs c1 = strs c" "sets c1 = sets c" "down c1 = down c"
    "hashes c1 = (hashes c)(entity_key e (decode_id raw) :=
           write_fields fs (hashes c (entity_key e (decode_id raw))))"
    "calls c1 = calls c @ hset_calls (entity_key e (decode_id raw)) fs"
    by simp_all
  from b have c': "incr_val (strs c1 (autoid_key e)) = Some n"
    "c' = attempt (Incr (autoid_key e)) (c1\<lparr>strs := (strs c1)(autoid_key e \<mapsto> show_int n)\<rparr>)"
    by (simp_all add: r_incr_Inr)
  show "x = k (decode_id raw) (count_new fs (hashes c (entity_key e (decode_id raw))))"
    using x h by simp
  show "\<exists>n. incr_val (strs c (autoid_key e)) = Some n \<and> strs c' = (strs c)(autoid_key e \<mapsto> show_int n)"
    using c' c1 by simp
  show "hashes c' = (hashes c)(entity_key e (decode_id raw) :=
           write_fields fs (hashes c (entity_key e (decode_id raw))))"
    using c' c1 by simp
  show "sets c' = sets c" "down c' = down c" using c' c1 by simp_all
  show "calls c' = calls c @ hset_calls (entity_key e (decode_id raw)) fs @ [Incr (autoid_key e)]"
    using c' c1 by simp
qed

lemma gen_writes_Inl:
  assumes "gen_writes e raw fs k c = (Inl ex, c')"
  shows "strs c' = strs c \<and> sets c' = sets c \<and> down c' = down c \<and>
     (\<forall>k'. k' \<noteq> entity_key e (decode_id raw) \<longrightarrow> hashes c' k' = hashes c k') \<and>
     (\<exists>new. calls c' = calls c @ new)"
proof -
  from assms consider
    (w) "hset_all (entity_key e (decode_id raw)) fs c = (Inl ex, c')"
  | (i) w c1 where "hset_all (entity_key e (decode_id raw)) fs c = (Inr w, c1)"
      "r_incr (autoid_key e) c1 = (Inl ex, c')"
    by (auto simp: gen_writes_def bindE_Inl)
  then show ?thesis
  proof cases
    case w
    from hset_all_Inl [OF w] show ?thesis by simp
  next
    case i
    from hset_all_Inr [OF i(1)] i(2) show ?thesis
      by (simp add: r_incr_Inl)
  qed
qed

lemma up_attempt:
  assumes "up c n" and "Suc m \<le> n"
  shows "up (attempt x c) m"
  unfolding up_def
proof (intro allI impI)
  fix j
  assume "j < m"
  then have "Suc j < n" using assms(2) by simp
  with assms(1) have "\<not> down c (length (calls c) + Suc j)"
    unfolding up_def by blast
  then show "\<not> down (attempt x c) (length (calls (attempt x c)) + j)" by simp
qed

lemma up_first: "up c n \<Longrightarrow> 0 < n \<Longrightarrow> \<not> refused c"
  by (auto simp: up_def refused_def)

lemma up_mono: "up c n \<Longrightarrow> m \<le> n \<Longrightarrow> up c m"
  by (auto simp: up_def)

lemma gen_writes_total:
  assumes "up c (Suc (length fs))" and "incr_val (strs c (autoid_key e)) = Some n"
  shows "\<exists>x c'. gen_writes e raw fs k c = (Inr x, c')"
proof -
  from assms(1) have "up c (length fs)" by (rule up_mono) simp
  from hset_all_total [OF this] obtain w c1 where
    a: "hset_all (entity_key e (decode_id raw)) fs c = (Inr w, c1)" by blast
  from hset_all_Inr [OF a] have c1: "strs c1 = strs c" "down c1 = down c"
    "calls c1 = calls c @ hset_calls (entity_key e (decode_id raw)) fs" by simp_all
  from assms(1) c1 have "\<not> refused c1"
    by (auto simp: up_def refused_def hset_calls_def)
  with a assms(2) c1 show ?thesis
    by (simp add: gen_writes_def bindE_Inr r_incr_Inr)
qed

lemma gen_try_Inl:
  assumes "gen_try e ref fs ke ko c = (Inl ex, c')"
  shows "strs c' = strs c \<and> sets c' = sets c \<and> down c' = down c \<and>
     (\<forall>k'. k' \<noteq> entity_key e (decode_id (strs c (autoid_key e))) \<longrightarrow> hashes c' k' = hashes c k') \<and>
     (\<exists>new. calls c' = calls c @ new)"
proof -
  define c1 where "c1 = attempt (Get (autoid_key e)) c"
  define raw where "raw = strs c (autoid_key e)"
  from assms consider
    (g) "c' = c1"
  | (r) key msg where "ref = Some (key, msg)" "c' = attempt (HGetAll key) c1"
  | (w1) "gen_writes e raw fs (ko []) c1 = (Inl ex, c')"
  | (w2) key where
      "gen_writes e raw fs (ko (hashes c key)) (attempt (HGetAll key) c1) = (Inl ex, c')"
    by (auto simp: gen_try_def bindE_Inl r_get_Inl r_get_Inr r_hgetall_Inl r_hgetall_Inr
        c1_def raw_def split: option.splits if_splits)
  then show ?thesis
  proof cases
    case g
    then show ?thesis by (simp add: c1_def)
  next
    case r
    then show ?thesis by (simp add: c1_def)
  next
    case w1
    from gen_writes_Inl [OF w1] show ?thesis
      by (auto simp: c1_def raw_def)
  next
    case w2
    from gen_writes_Inl [OF w2] show ?thesis
      by (auto simp: c1_def raw_def)
  qed
qed

lemma gen_try_Inr:
  assumes "gen_try e ref fs ke ko c = (Inr x, c')"
  obtains (early) key msg where "ref = Some (key, msg)" "hashes c key = []" "x = ke msg"
      "c' = attempt (HGetAll key) (attempt (Get (autoid_key e)) c)"
  | (written) "ref_ok ref c"
      "x = ko (ref_found ref c) (decode_id (strs c (autoid_key e)))
             (count_new fs (hashes c (entity_key e (decode_id (strs c (autoid_key e))))))"
      "\<exists>n. incr_val (strs c (autoid_key e)) = Some n \<and> strs c' = (strs c)(autoid_key e \<mapsto> show_int n)"
      "hashes c' = (hashes c)(entity_key e (decode_id (strs c (autoid_key e))) :=
           write_fields fs (hashes c (entity_key e (decode_id (strs c (autoid_key e))))))"
      "sets c' = sets c" "down c' = down c"
      "calls c' = calls c @ Get (autoid_key e) # ref_reads ref
           @ hset_calls (entity_key e (decode_id (strs c (autoid_key e)))) fs @ [Incr (autoid_key e)]"
proof -
  define c1 where "c1 = attempt (Get (autoid_key e)) c"
  define raw where "raw = strs c (autoid_key e)"
  from assms consider
    (a) key msg where "ref = Some (key, msg)" "hashes c key = []" "x = ke msg"
      "c' = attempt (HGetAll key) c1"
  | (b) "ref = None" "gen_writes e raw fs (ko []) c1 = (Inr x, c')"
  | (c) key msg where "ref = Some (key, msg)" "hashes c key \<noteq> []"
      "gen_writes e raw fs (ko (hashes c key)) (attempt (HGetAll key) c1) = (Inr x, c')"
    by (auto simp: gen_try_def bindE_Inr r_get_Inr r_hgetall_Inr
        c1_def raw_def split: option.splits if_splits)
  then show ?thesis
  proof cases
    case a
    then show ?thesis using early by (simp add: c1_def)
  next
    case b
    note w = gen_writes_Inr [OF b(2)]
    show ?thesis
      apply (rule written)
      using b(1) w by (simp_all add: ref_ok_def ref_found_def ref_reads_def c1_def raw_def)
  next
    case c
    note w = gen_writes_Inr [OF c(3)]
    show ?thesis
      apply (rule written)
      using c(1,2) w by (simp_all add: ref_ok_def ref_found_def ref_reads_def c1_def raw_def)
  qed
qed

lemma gen_try_total:
  assumes "up c (length fs + 2 + length (ref_reads ref))" and "ref_ok ref c"
    and "incr_val (strs c (autoid_key e)) = Some n"
  shows "\<exists>x c'. gen_try e ref fs ke ko c = (Inr x, c')"
proof -
  define c1 where "c1 = attempt (Get (autoid_key e)) c"
  have r0: "\<not> refused c" using assms(1) by (rule up_first) simp
  have u1: "up c1 (length fs + 1 + length (ref_reads ref))"
    unfolding c1_def using assms(1) by (rule up_attempt) simp
  show ?thesis
  proof (cases ref)
    case None
    from u1 have "up c1 (Suc (length fs))" by (rule up_mono) simp
    moreover have "incr_val (strs c1 (autoid_key e)) = Some n"
      using assms(3) by (simp add: c1_def)
    ultimately have "\<exists>x c'. gen_writes e (strs c (autoid_key e)) fs (ko []) c1 = (Inr x, c')"
      by (rule gen_writes_total)
    then obtain x c' where
      "gen_writes e (strs c (autoid_key e)) fs (ko []) c1 = (Inr x, c')" by blast
    with None r0 show ?thesis
      by (auto simp: gen_try_def bindE_Inr r_get_Inr c1_def)
  next
    case (Some p)
    obtain key msg where p: "p = (key, msg)" by (cases p)
    define c2 where "c2 = attempt (HGetAll key) c1"
    from u1 Some p have u1': "up c1 (length fs + 2)" by (simp add: ref_reads_def)
    have r1: "\<not> refused c1" using u1' by (rule up_first) simp
    have "up c2 (Suc (length fs))" unfolding c2_def using u1' by (rule up_attempt) simp
    moreover have "incr_val (strs c2 (autoid_key e)) = Some n"
      using assms(3) by (simp add: c1_def c2_def)
    ultimately have
      "\<exists>x c'. gen_writes e (strs c (autoid_key e)) fs (ko (hashes c key)) c2 = (Inr x, c')"
      by (rule gen_writes_total)
    then obtain x c' where
      "gen_writes e (strs c (autoid_key e)) fs (ko (hashes c key)) c2 = (Inr x, c')" by blast
    with Some p r0 r1 assms(2) show ?thesis
      by (auto simp: gen_try_def bindE_Inr r_get_Inr r_hgetall_Inr c1_def c2_def ref_ok_def)
  qed
qed

section \<open>The handlers as instances of one body\<close>

lemma is_exn_simps [simp]:
  "is_exn redis_refused" "is_exn (Uncaught e)" "\<not> is_exn went_wrong" "\<not> is_exn (Reply 200 m)"
  by (simp_all add: is_exn_def redis_refused_def went_wrong_def)

lemma is_ok_simps [simp]:
  "is_ok (Reply 200 m)" "\<not> is_ok went_wrong" "\<not> is_ok redis_refused" "\<not> is_ok (Uncaught e)"
  by (simp_all add: is_ok_def redis_refused_def went_wrong_def)

lemma went_wrong_not_ok [simp]: "went_wrong \<noteq> Reply 200 m" "Reply 200 m \<noteq> went_wrong"
  by (simp_all add: went_wrong_def)

lemma finish_cases:
  fixes out :: "'a \<Rightarrow> reply"
  assumes f: "finish out (gen_try e ref fs ke ko c) = (rep, c')"
    and ke: "\<And>key msg. ref = Some (key, msg) \<Longrightarrow> out (ke msg) = Reply 400 msg"
    and ko: "\<And>found i w. out (ko found i w) =
               (if w \<noteq> int (length fs) then went_wrong else Reply 200 (ok found i))"
  obtains
    (exn) "is_exn rep" "strs c' = strs c" "sets c' = sets c" "down c' = down c"
      "\<forall>k. k \<noteq> entity_key e (decode_id (strs c (autoid_key e))) \<longrightarrow> hashes c' k = hashes c k"
      "\<exists>new. calls c' = calls c @ new"
  | (early) key msg where "ref = Some (key, msg)" "hashes c key = []" "rep = Reply 400 msg"
      "c' = attempt (HGetAll key) (attempt (Get (autoid_key e)) c)"
  | (written) "ref_ok ref c"
      "rep = (if count_new fs (hashes c (entity_key e (decode_id (strs c (autoid_key e))))) \<noteq> int (length fs)
              then went_wrong
              else Reply 200 (ok (ref_found ref c) (decode_id (strs c (autoid_key e)))))"
      "\<exists>n. incr_val (strs c (autoid_key e)) = Some n \<and> strs c' = (strs c)(autoid_key e \<mapsto> show_int n)"
      "hashes c' = (hashes c)(entity_key e (decode_id (strs c (autoid_key e))) :=
           write_fields fs (hashes c (entity_key e (decode_id (strs c (autoid_key e))))))"
      "sets c' = sets c" "down c' = down c"
      "calls c' = calls c @ Get (autoid_key e) # ref_reads ref
           @ hset_calls (entity_key e (decode_id (strs c (autoid_key e)))) fs @ [Incr (autoid_key e)]"
proof -
  obtain res c1 where t: "gen_try e ref fs ke ko c = (res, c1)"
    by (cases "gen_try e ref fs ke ko c")
  show ?thesis
  proof (cases res)
    case (Inl ex)
    with f t have "is_exn rep" "c' = c1"
      by (auto simp: finish_def split: exn.splits)
    moreover note gen_try_Inl [OF t [unfolded Inl]]
    ultimately show ?thesis
      by (intro exn) simp_all
  next
    case (Inr x)
    with f t have rep: "rep = out x" and c': "c' = c1"
      by (simp_all add: finish_def)
    from t [unfolded Inr] show ?thesis
    proof (cases rule: gen_try_Inr)
      case (early key msg)
      with rep c' ke show ?thesis by (intro that(2)) simp_all
    next
      case written
      show ?thesis
        apply (rule that(3))
        using written rep c' ko by simp_all
    qed
  qed
qed

lemma finish_total:
  fixes out :: "'a \<Rightarrow> reply"
  assumes "up c (length fs + 2 + length (ref_reads ref))" and "ref_ok ref c"
    and "incr_val (strs c (autoid_key e)) = Some n"
    and ko: "\<And>found i w. out (ko found i w) =
               (if w \<noteq> int (length fs) then went_wrong else Reply 200 (ok found i))"
  shows "fst (finish out (gen_try e ref fs ke ko c)) =
           (if count_new fs (hashes c (entity_key e (decode_id (strs c (autoid_key e))))) \<noteq> int (length fs)
            then went_wrong
            else Reply 200 (ok (ref_found ref c) (decode_id (strs c (autoid_key e)))))"
proof -
  have "\<exists>x c1. gen_try e ref fs ke ko c = (Inr x, c1)"
    by (rule gen_try_total [OF assms(1-3)])
  then obtain x c1 where
    t: "gen_try e ref fs ke ko c = (Inr x, c1)" by blast
  from t show ?thesis
  proof (cases rule: gen_try_Inr)
    case (early key msg)
    with assms(2) show ?thesis by (simp add: ref_ok_def)
  next
    case written
    with t ko show ?thesis by (simp add: finish_def)
  qed
qed

lemma hospital_try_gen:
  "hospital_try name address beds_number phone =
     gen_try ''hospital'' None (fields_of (NewHospital name address beds_number phone))
       (\<lambda>msg. ([], 0)) (\<lambda>found i w. (i, w))"
  by (simp add: hospital_try_def gen_try_def gen_writes_def bindE_assoc bindE_ret Let_def add.assoc)

lemma patient_try_gen:
  "patient_try surname born_date sex mpn =
     gen_try ''patient'' None (fields_of (NewPatient surname born_date sex mpn))
       (\<lambda>msg. ([], 0)) (\<lambda>found i w. (i, w))"
  by (simp add: patient_try_def gen_try_def gen_writes_def bindE_assoc bindE_ret Let_def add.assoc)

lemma doctor_try_gen:
  "doctor_try surname profession hospital_ID =
     gen_try ''doctor'' (ref_of (NewDoctor surname profession hospital_ID))
       (fields_of (NewDoctor surname profession hospital_ID))
       (\<lambda>msg. Inl (Reply 400 msg)) (\<lambda>found i w. Inr (i, w))"
proof (cases "hospital_ID = []")
  case True
  then show ?thesis
    by (simp add: doctor_try_def gen_try_def gen_writes_def bindE_assoc bindE_ret Let_def add.assoc)
next
  case False
  then show ?thesis
    by (simp add: doctor_try_def gen_try_def gen_writes_def bindE_assoc bindE_ret Let_def add.assoc
        cong: if_cong)
qed

lemma diagnosis_try_gen:
  "diagnosis_try patient_ID diagnosis_type information =
     gen_try ''diagnosis'' (ref_of (NewDiagnosis patient_ID diagnosis_type information))
       (fields_of (NewDiagnosis patient_ID diagnosis_type information))
       (\<lambda>msg. Inl (Reply 400 msg)) (\<lambda>found i w. Inr (i, w, found))"
  by (simp add: diagnosis_try_def gen_try_def gen_writes_def bindE_assoc bindE_ret Let_def add.assoc
      cong: if_cong)

lemma hospital_post_finish:
  "hospital_post name address beds_number phone c =
     (if name = [] \<or> address = [] then (Reply 400 ''Hospital name and address required'', c)
      else finish (\<lambda>(i, w). if w \<noteq> 4 then went_wrong else Reply 200 (''OK: ID '' @ i @ '' for '' @ name))
             (hospital_try name address beds_number phone c))"
  by (simp add: hospital_post_def finish_def split: prod.splits sum.splits exn.splits)

lemma patient_post_finish:
  "patient_post surname born_date sex mpn c =
     (if surname = [] \<or> born_date = [] \<or> sex = [] \<or> mpn = [] then (Reply 400 ''All fields required'', c)
      else if sex \<notin> set [''M'', ''F''] then (Reply 400 sex_message, c)
      else finish (\<lambda>(i, w). if w \<noteq> 4 then went_wrong else Reply 200 (''OK: ID '' @ i @ '' for '' @ surname))
             (patient_try surname born_date sex mpn c))"
  by (simp add: patient_post_def finish_def split: prod.splits sum.splits exn.splits)

lemma doctor_post_finish:
  "doctor_post surname profession hospital_ID c =
     (if surname = [] \<or> profession = [] then (Reply 400 ''Surname and profession required'', c)
      else finish (\<lambda>x. case x of Inl early \<Rightarrow> early
                      | Inr (i, w) \<Rightarrow> if w \<noteq> 3 then went_wrong
                                     else Reply 200 (''OK: ID '' @ i @ '' for '' @ surname))
             (doctor_try surname profession hospital_ID c))"
  by (simp add: doctor_post_def finish_def split: prod.splits sum.splits exn.splits)

lemma diagnosis_post_finish:
  "diagnosis_post patient_ID diagnosis_type information c =
     (if patient_ID = [] \<or> diagnosis_type = [] then (Reply 400 ''Patiend ID and diagnosis type required'', c)
      else finish (\<lambda>x. case x of Inl early \<Rightarrow> early
                      | Inr (i, w, patient) \<Rightarrow> if w \<noteq> 3 then went_wrong
                                     else Reply 200 (''OK: ID '' @ i @ '' for patient ''
                        @ (case map_of patient ''surname'' of None \<Rightarrow> [] | Some v \<Rightarrow> v)))
             (diagnosis_try patient_ID diagnosis_type information c))"
  by (simp add: diagnosis_post_def finish_def split: prod.splits sum.splits exn.splits)

section \<open>What a create does\<close>

lemma accepted_iff: "accepted r c \<longleftrightarrow> rejection r = None \<and> ref_ok (ref_of r) c"
  by (cases r) (auto simp: ref_ok_def)

lemma record_key_eq:
  "record_key E c = entity_key (entity_name E) (decode_id (strs c (autoid_key (entity_name E))))"
  by (simp add: record_key_def counter_def)

lemma create_schema:
  fixes out :: "'a \<Rightarrow> reply"
  assumes eq: "create r c =
      (case rejection r of
         Some msg \<Rightarrow> (Reply 400 msg, c)
       | None \<Rightarrow> finish out (gen_try (entity_name (entity_of r)) (ref_of r) (fields_of r) ke ko c))"
    and ke: "\<And>key msg. ref_of r = Some (key, msg) \<Longrightarrow> out (ke msg) = Reply 400 msg"
    and ko: "\<And>found i w. out (ko found i w) =
               (if w \<noteq> int (length (fields_of r)) then went_wrong else Reply 200 (ok_text r found i))"
    and res: "create r c = (rep, c')"
  shows "(is_exn rep \<and> rejection r = None \<and> strs c' = strs c \<and> sets c' = sets c \<and> down c' = down c \<and>
          (\<forall>k. k \<noteq> record_key (entity_of r) c \<longrightarrow> hashes c' k = hashes c k) \<and>
          (\<exists>new. calls c' = calls c @ new))
       \<or> (\<exists>msg. rejection r = Some msg \<and> rep = Reply 400 msg \<and> c' = c)
       \<or> (\<exists>key msg. rejection r = None \<and> ref_of r = Some (key, msg) \<and> hashes c key = [] \<and>
            rep = Reply 400 msg \<and>
            c' = attempt (HGetAll key) (attempt (Get (autoid_key (entity_name (entity_of r)))) c))
       \<or> (accepted r c \<and>
          rep = (if count_new (fields_of r) (hashes c (record_key (entity_of r) c))
                      \<noteq> int (length (fields_of r))
                 then went_wrong
                 else Reply 200 (ok_text r (ref_found (ref_of r) c) (decode_id (counter (entity_of r) c)))) \<and>
          (\<exists>n. incr_val (counter (entity_of r) c) = Some n \<and>
               strs c' = (strs c)(autoid_key (entity_name (entity_of r)) \<mapsto> show_int n)) \<and>
          hashes c' = (hashes c)(record_key (entity_of r) c :=
               write_fields (fields_of r) (hashes c (record_key (entity_of r) c))) \<and>
          sets c' = sets c \<and> down c' = down c \<and>
          calls c' = calls c @ Get (autoid_key (entity_name (entity_of r))) # ref_reads (ref_of r)
               @ hset_calls (record_key (entity_of r) c) (fields_of r)
               @ [Incr (autoid_key (entity_name (entity_of r)))])"
proof (cases "rejection r")
  case (Some msg)
  with eq res show ?thesis by simp
next
  case None
  with eq res have
    f: "finish out (gen_try (entity_name (entity_of r)) (ref_of r) (fields_of r) ke ko c) = (rep, c')"
    by simp
  show ?thesis
  proof (rule finish_cases [OF f ke ko])
    assume "is_exn rep" "strs c' = strs c" "sets c' = sets c" "down c' = down c"
      "\<forall>k. k \<noteq> entity_key (entity_name (entity_of r))
          (decode_id (strs c (autoid_key (entity_name (entity_of r))))) \<longrightarrow> hashes c' k = hashes c k"
      "\<exists>new. calls c' = calls c @ new"
    with None show ?thesis by (simp add: record_key_eq)
  next
    fix key msg
    assume "ref_of r = Some (key, msg)" "hashes c key = []" "rep = Reply 400 msg"
      "c' = attempt (HGetAll key) (attempt (Get (autoid_key (entity_name (entity_of r)))) c)"
    with None show ?thesis by simp
  next
    assume "ref_ok (ref_of r) c"
      "rep = (if count_new (fields_of r) (hashes c (entity_key (entity_name (entity_of r))
                (decode_id (strs c (autoid_key (entity_name (entity_of r)))))))
              \<noteq> int (length (fields_of r))
              then went_wrong
              else Reply 200 (ok_text r (ref_found (ref_of r) c)
                     (decode_id (strs c (autoid_key (entity_name (entity_of r)))))))"
      "\<exists>n. incr_val (strs c (autoid_key (entity_name (entity_of r)))) = Some n \<and>
           strs c' = (strs c)(autoid_key (entity_name (entity_of r)) \<mapsto> show_int n)"
      "hashes c' = (hashes c)(entity_key (entity_name (entity_of r))
            (decode_id (strs c (autoid_key (entity_name (entity_of r))))) :=
           write_fields (fields_of r) (hashes c (entity_key (entity_name (entity_of r))
            (decode_id (strs c (autoid_key (entity_name (entity_of r))))))))"
      "sets c' = sets c" "down c' = down c"
      "calls c' = calls c @ Get (autoid_key (entity_name (entity_of r))) # ref_reads (ref_of r)
           @ hset_calls (entity_key (entity_name (entity_of r))
            (decode_id (strs c (autoid_key (entity_name (entity_of r)))))) (fields_of r)
           @ [Incr (autoid_key (entity_name (entity_of r)))]"
    with None show ?thesis
      by (simp add: record_key_eq accepted_iff counter_def)
  qed
qed


lemma create_disj:
  assumes res: "create r c = (rep, c')"
  shows "(is_exn rep \<and> rejection r = None \<and> strs c' = strs c \<and> sets c' = sets c \<and> down c' = down c \<and>
          (\<forall>k. k \<noteq> record_key (entity_of r) c \<longrightarrow> hashes c' k = hashes c k) \<and>
          (\<exists>new. calls c' = calls c @ new))
       \<or> (\<exists>msg. rejection r = Some msg \<and> rep = Reply 400 msg \<and> c' = c)
       \<or> (\<exists>key msg. rejection r = None \<and> ref_of r = Some (key, msg) \<and> hashes c key = [] \<and>
            rep = Reply 400 msg \<and>
            c' = attempt (HGetAll key) (attempt (Get (autoid_key (entity_name (entity_of r)))) c))
       \<or> (accepted r c \<and>
          rep = (if count_new (fields_of r) (hashes c (record_key (entity_of r) c))
                      \<noteq> int (length (fields_of r))
                 then went_wrong
                 else Reply 200 (ok_text r (ref_found (ref_of r) c) (decode_id (counter (entity_of r) c)))) \<and>
          (\<exists>n. incr_val (counter (entity_of r) c) = Some n \<and>
               strs c' = (strs c)(autoid_key (entity_name (entity_of r)) \<mapsto> show_int n)) \<and>
          hashes c' = (hashes c)(record_key (entity_of r) c :=
               write_fields (fields_of r) (hashes c (record_key (entity_of r) c))) \<and>
          sets c' = sets c \<and> down c' = down c \<and>
          calls c' = calls c @ Get (autoid_key (entity_name (entity_of r))) # ref_reads (ref_of r)
               @ hset_calls (record_key (entity_of r) c) (fields_of r)
               @ [Incr (autoid_key (entity_name (entity_of r)))])"
proof (cases r)
  case (NewHospital name address beds_number phone)
  show ?thesis
  proof (rule create_schema [where out = "\<lambda>(i, w). if w \<noteq> 4 then went_wrong
              else Reply 200 (''OK: ID '' @ i @ '' for '' @ name)"
          and ke = "\<lambda>msg. ([], 0)" and ko = "\<lambda>found i w. (i, w)"])
    show "create r c = (rep, c')" by (rule res)
  qed (simp_all add: NewHospital hospital_post_finish hospital_try_gen)
next
  case (NewDoctor surname profession hospital_ID)
  show ?thesis
  proof (rule create_schema [where out = "\<lambda>x. case x of Inl early \<Rightarrow> early
                      | Inr (i, w) \<Rightarrow> if w \<noteq> 3 then went_wrong
                                     else Reply 200 (''OK: ID '' @ i @ '' for '' @ surname)"
          and ke = "\<lambda>msg. Inl (Reply 400 msg)" and ko = "\<lambda>found i w. Inr (i, w)"])
    show "create r c = (rep, c')" by (rule res)
  qed (simp_all add: NewDoctor doctor_post_finish doctor_try_gen)
next
  case (NewPatient surname born_date sex mpn)
  show ?thesis
  proof (rule create_schema [where out = "\<lambda>(i, w). if w \<noteq> 4 then went_wrong
              else Reply 200 (''OK: ID '' @ i @ '' for '' @ surname)"
          and ke = "\<lambda>msg. ([], 0)" and ko = "\<lambda>found i w. (i, w)"])
    show "create r c = (rep, c')" by (rule res)
  qed (simp_all add: NewPatient patient_post_finish patient_try_gen)
next
  case (NewDiagnosis patient_ID diagnosis_type information)
  show ?thesis
  proof (rule create_schema [where out = "\<lambda>x. case x of Inl early \<Rightarrow> early
                      | Inr (i, w, patient) \<Rightarrow> if w \<noteq> 3 then went_wrong
                                     else Reply 200 (''OK: ID '' @ i @ '' for patient ''
                        @ (case map_of patient ''surname'' of None \<Rightarrow> [] | Some v \<Rightarrow> v))"
          and ke = "\<lambda>msg. Inl (Reply 400 msg)" and ko = "\<lambda>found i w. Inr (i, w, found)"])
    show "create r c = (rep, c')" by (rule res)
  qed (simp_all add: NewDiagnosis diagnosis_post_finish diagnosis_try_gen)
qed

lemma create_cases [consumes 1, case_names exn rejected missing written]:
  assumes "create r c = (rep, c')"
  obtains
    (exn) "is_exn rep" "rejection r = None" "strs c' = strs c" "sets c' = sets c" "down c' = down c"
      "\<forall>k. k \<noteq> record_key (entity_of r) c \<longrightarrow> hashes c' k = hashes c k"
      "\<exists>new. calls c' = calls c @ new"
  | (rejected) msg where "rejection r = Some msg" "rep = Reply 400 msg" "c' = c"
  | (missing) key msg where "rejection r = None" "ref_of r = Some (key, msg)" "hashes c key = []"
      "rep = Reply 400 msg"
      "c' = attempt (HGetAll key) (attempt (Get (autoid_key (entity_name (entity_of r)))) c)"
  | (written) "accepted r c"
      "rep = (if count_new (fields_of r) (hashes c (record_key (entity_of r) c))
                      \<noteq> int (length (fields_of r))
                 then went_wrong
                 else Reply 200 (ok_text r (ref_found (ref_of r) c) (decode_id (counter (entity_of r) c))))"
      "\<exists>n. incr_val (counter (entity_of r) c) = Some n \<and>
               strs c' = (strs c)(autoid_key (entity_name (entity_of r)) \<mapsto> show_int n)"
      "hashes c' = (hashes c)(record_key (entity_of r) c :=
               write_fields (fields_of r) (hashes c (record_key (entity_of r) c)))"
      "sets c' = sets c" "down c' = down c"
      "calls c' = calls c @ Get (autoid_key (entity_name (entity_of r))) # ref_reads (ref_of r)
               @ hset_calls (record_key (entity_of r) c) (fields_of r)
               @ [Incr (autoid_key (entity_name (entity_of r)))]"
  using create_disj [OF assms]
  apply (elim disjE)
  subgoal by (rule exn) simp_all
  subgoal by (elim exE conjE) (rule rejected, assumption+)
  subgoal by (elim exE conjE) (rule missing, assumption+)
  subgoal by (rule written) simp_all
  done


lemma create_total_schema:
  fixes out :: "'a \<Rightarrow> reply"
  assumes eq: "create r c =
      (case rejection r of
         Some msg \<Rightarrow> (Reply 400 msg, c)
       | None \<Rightarrow> finish out (gen_try (entity_name (entity_of r)) (ref_of r) (fields_of r) ke ko c))"
    and ko: "\<And>found i w. out (ko found i w) =
               (if w \<noteq> int (length (fields_of r)) then went_wrong else Reply 200 (ok_text r found i))"
    and acc: "accepted r c" and up: "up c (length (fields_of r) + 2 + length (ref_reads (ref_of r)))"
    and inc: "incr_val (counter (entity_of r) c) = Some n"
  shows "fst (create r c) =
           (if count_new (fields_of r) (hashes c (record_key (entity_of r) c))
                      \<noteq> int (length (fields_of r))
            then went_wrong
            else Reply 200 (ok_text r (ref_found (ref_of r) c) (decode_id (counter (entity_of r) c))))"
proof -
  from acc have rej: "rejection r = None" and ok: "ref_ok (ref_of r) c"
    by (simp_all add: accepted_iff)
  from inc have inc': "incr_val (strs c (autoid_key (entity_name (entity_of r)))) = Some n"
    by (simp add: counter_def)
  from finish_total [where out = out and ko = ko and ok = "ok_text r" and ke = ke,
      OF up ok inc' ko] eq rej show ?thesis
    by (simp add: record_key_eq counter_def)
qed

lemma create_total:
  assumes acc: "accepted r c" and up: "up c (length (fields_of r) + 2 + length (ref_reads (ref_of r)))"
    and inc: "incr_val (counter (entity_of r) c) = Some n"
  shows "fst (create r c) =
           (if count_new (fields_of r) (hashes c (record_key (entity_of r) c))
                      \<noteq> int (length (fields_of r))
            then went_wrong
            else Reply 200 (ok_text r (ref_found (ref_of r) c) (decode_id (counter (entity_of r) c))))"
proof (cases r)
  case (NewHospital name address beds_number phone)
  show ?thesis
  proof (rule create_total_schema [where out = "\<lambda>(i, w). if w \<noteq> 4 then went_wrong
              else Reply 200 (''OK: ID '' @ i @ '' for '' @ name)"
          and ke = "\<lambda>msg. ([], 0)" and ko = "\<lambda>found i w. (i, w)", OF _ _ acc up inc])
  qed (simp_all add: NewHospital hospital_post_finish hospital_try_gen)
next
  case (NewDoctor surname profession hospital_ID)
  show ?thesis
  proof (rule create_total_schema [where out = "\<lambda>x. case x of Inl early \<Rightarrow> early
                      | Inr (i, w) \<Rightarrow> if w \<noteq> 3 then went_wrong
                                     else Reply 200 (''OK: ID '' @ i @ '' for '' @ surname)"
          and ke = "\<lambda>msg. Inl (Reply 400 msg)" and ko = "\<lambda>found i w. Inr (i, w)", OF _ _ acc up inc])
  qed (simp_all add: NewDoctor doctor_post_finish doctor_try_gen)
next
  case (NewPatient surname born_date sex mpn)
  show ?thesis
  proof (rule create_total_schema [where out = "\<lambda>(i, w). if w \<noteq> 4 then went_wrong
              else Reply 200 (''OK: ID '' @ i @ '' for '' @ surname)"
          and ke = "\<lambda>msg. ([], 0)" and ko = "\<lambda>found i w. (i, w)", OF _ _ acc up inc])
  qed (simp_all add: NewPatient patient_post_finish patient_try_gen)
next
  case (NewDiagnosis patient_ID diagnosis_type information)
  show ?thesis
  proof (rule create_total_schema [where out = "\<lambda>x. case x of Inl early \<Rightarrow> early
                      | Inr (i, w, patient) \<Rightarrow> if w \<noteq> 3 then went_wrong
                                     else Reply 200 (''OK: ID '' @ i @ '' for patient ''
                        @ (case map_of patient ''surname'' of None \<Rightarrow> [] | Some v \<Rightarrow> v))"
          and ke = "\<lambda>msg. Inl (Reply 400 msg)" and ko = "\<lambda>found i w. Inr (i, w, found)", OF _ _ acc up inc])
  qed (simp_all add: NewDiagnosis diagnosis_post_finish diagnosis_try_gen)
qed

lemma show_int_inj: "show_int i = show_int j \<Longrightarrow> i = j"
proof -
  assume e: "show_int i = show_int j"
  have neg: "\<And>n s. show_nat n \<noteq> CHR ''-'' # s"
  proof
    fix n s assume "show_nat n = CHR ''-'' # s"
    moreover obtain ch cs where "show_nat n = ch # cs" "ch \<noteq> CHR ''-''" by (rule show_nat_first)
    ultimately show False by simp
  qed
  show ?thesis
  proof (cases "i < 0")
    case True
    show ?thesis
    proof (cases "j < 0")
      case True
      with \<open>i < 0\<close> e have "show_nat (nat (- i)) = show_nat (nat (- j))" by (simp add: show_int_def)
      then have "nat (- i) = nat (- j)" by (rule show_nat_inj)
      with True \<open>i < 0\<close> show ?thesis by simp
    next
      case False
      with \<open>i < 0\<close> e neg [of "nat j" "show_nat (nat (- i))"] show ?thesis by (simp add: show_int_def)
    qed
  next
    case False
    show ?thesis
    proof (cases "j < 0")
      case True
      with \<open>\<not> i < 0\<close> e neg [of "nat i" "show_nat (nat (- j))"] show ?thesis by (simp add: show_int_def)
    next
      case False
      with \<open>\<not> i < 0\<close> e have "show_nat (nat i) = show_nat (nat j)" by (simp add: show_int_def)
      then have "nat i = nat j" by (rule show_nat_inj)
      with False \<open>\<not> i < 0\<close> show ?thesis by simp
    qed
  qed
qed

lemma redis_int_canonical: "redis_int s = Some v \<Longrightarrow> s = show_int v"
  by (auto simp: redis_int_def Let_def split: if_splits)

lemma incr_val_changes: "incr_val old = Some n \<Longrightarrow> old \<noteq> Some (show_int n)"
proof
  assume a: "incr_val old = Some n" and b: "old = Some (show_int n)"
  from a b obtain m where m: "redis_int (show_int n) = Some m" and n: "n = m + 1"
    by (auto simp: incr_val_def split: option.splits if_splits)
  from redis_int_canonical [OF m] have "n = m" by (rule show_int_inj)
  with n show False by simp
qed

section \<open>C1: the counter after a write count mismatch\<close>

text \<open>
  C1 says that a create whose write count does not match (the reply
  \<open>Something went terribly wrong\<close>) does not advance the counter of its type. Every
  handler calls \<^verbatim>\<open>r.incr\<close> inside the \<^verbatim>\<open>try\<close> block, before the count is looked at in the
  \<^verbatim>\<open>else\<close> clause. Counterexample to C1: after a first create whose increment was refused,
  the same create finds its four fields present, answers 500, and moves the counter from 1
  to 2.
\<close>

theorem C1_counterexample:
  "fst (create hospital_A (snd (create hospital_A (booted_failing 11)))) = went_wrong \<and>
   counter Hospital (snd (create hospital_A (booted_failing 11))) = Some ''1'' \<and>
   counter Hospital (snd (create hospital_A (snd (create hospital_A (booted_failing 11))))) = Some ''2''"
  by code_simp

text \<open>
  C1 as amended: a create that answers with the write count mismatch has advanced the counter
  of its type; the counter holds the value that \<^verbatim>\<open>INCR\<close> gives for the old one, which
  differs from the old one.
\<close>

theorem C1_counter_advanced:
  assumes "create r c = (went_wrong, c')"
  shows "counter (entity_of r) c' \<noteq> counter (entity_of r) c \<and>
         (\<exists>n. incr_val (counter (entity_of r) c) = Some n \<and>
              counter (entity_of r) c' = Some (show_int n))"
  using assms
proof (cases rule: create_cases)
  case exn
  then show ?thesis by simp
next
  case (rejected msg)
  then show ?thesis by (simp add: went_wrong_def)
next
  case (missing key msg)
  then show ?thesis by (simp add: went_wrong_def)
next
  case written
  from written(3) obtain n where n: "incr_val (counter (entity_of r) c) = Some n"
    and s: "strs c' = (strs c)(autoid_key (entity_name (entity_of r)) \<mapsto> show_int n)" by blast
  from s have c': "counter (entity_of r) c' = Some (show_int n)" by (simp add: counter_def)
  with n incr_val_changes [OF n] show ?thesis by auto
qed

theorem C1_counter_advanced_witness:
  "counter Hospital (snd (create hospital_A (snd (create hospital_A (booted_failing 11)))))
     \<noteq> counter Hospital (snd (create hospital_A (booted_failing 11)))"
proof -
  have "fst (create hospital_A (snd (create hospital_A (booted_failing 11)))) = went_wrong"
    by code_simp
  then have "create hospital_A (snd (create hospital_A (booted_failing 11)))
     = (went_wrong, snd (create hospital_A (snd (create hospital_A (booted_failing 11)))))"
    by (simp add: prod_eq_iff)
  from C1_counter_advanced [OF this] show ?thesis by (simp add: hospital_A_def)
qed

section \<open>C6: validation before any store access\<close>



section \<open>C10: listing with an absent or unreadable counter\<close>



lemma up_downs: "up c n \<Longrightarrow> j < n \<Longrightarrow> \<not> down c (length (calls c) + j)"
  by (simp add: up_def)

lemma up_strs [simp]: "up (c\<lparr>strs := s\<rparr>) n = up c n"
  by (simp add: up_def)

lemma up_hashes [simp]: "up (c\<lparr>hashes := s\<rparr>) n = up c n"
  by (simp add: up_def)

lemma up_sets [simp]: "up (c\<lparr>sets := s\<rparr>) n = up c n"
  by (simp add: up_def)

lemma refused_upd [simp]:
  "refused (c\<lparr>strs := s\<rparr>) = refused c" "refused (c\<lparr>hashes := h\<rparr>) = refused c"
  "refused (c\<lparr>sets := m\<rparr>) = refused c"
  by (simp_all add: refused_def)

text \<open>Running a call that is not refused.\<close>

lemma run_get: "\<not> refused c \<Longrightarrow> bindE (r_get key) f c = f (strs c key) (attempt (Get key) c)"
  by (simp add: bindE_def r_get_def)

lemma run_set:
  "\<not> refused c \<Longrightarrow> bindE (r_set key v) f c = f () (attempt (Set key v) (c\<lparr>strs := (strs c)(key \<mapsto> v)\<rparr>))"
  by (simp add: bindE_def r_set_def)

lemma run_hgetall:
  "\<not> refused c \<Longrightarrow> bindE (r_hgetall key) f c = f (hashes c key) (attempt (HGetAll key) c)"
  by (simp add: bindE_def r_hgetall_def)

section \<open>C7: bootstrap\<close>

lemma call_set: "\<not> refused c \<Longrightarrow> r_set key v c = (Inr (), attempt (Set key v) (c\<lparr>strs := (strs c)(key \<mapsto> v)\<rparr>))"
  by (simp add: r_set_def)

lemma init_db_fresh:
  assumes "up c 6" and "falsy (strs c ''db_initiated'')"
  shows "init_db c = (Ready,
     c\<lparr>strs := (strs c)(autoid_key ''hospital'' \<mapsto> ''1'', autoid_key ''doctor'' \<mapsto> ''1'',
                        autoid_key ''patient'' \<mapsto> ''1'', autoid_key ''diagnosis'' \<mapsto> ''1'',
                        ''db_initiated'' \<mapsto> ''1''),
       calls := calls c @ [Get ''db_initiated'', Set (autoid_key ''hospital'') ''1'',
                           Set (autoid_key ''doctor'') ''1'', Set (autoid_key ''patient'') ''1'',
                           Set (autoid_key ''diagnosis'') ''1'', Set ''db_initiated'' ''1'']\<rparr>)"
proof -
  note u = up_downs [OF assms(1)]
  have d: "\<not> down c (length (calls c))" "\<not> down c (Suc (length (calls c)))"
    "\<not> down c (Suc (Suc (length (calls c))))" "\<not> down c (Suc (Suc (Suc (length (calls c)))))"
    "\<not> down c (Suc (Suc (Suc (Suc (length (calls c))))))"
    "\<not> down c (Suc (Suc (Suc (Suc (Suc (length (calls c)))))))"
    using u [of 0] u [of "Suc 0"] u [of "Suc (Suc 0)"] u [of "Suc (Suc (Suc 0))"]
      u [of "Suc (Suc (Suc (Suc 0)))"] u [of "Suc (Suc (Suc (Suc (Suc 0))))"]
    by simp_all
  have "init_db_try c = (Inr (),
     c\<lparr>strs := (strs c)(autoid_key ''hospital'' \<mapsto> ''1'', autoid_key ''doctor'' \<mapsto> ''1'',
                        autoid_key ''patient'' \<mapsto> ''1'', autoid_key ''diagnosis'' \<mapsto> ''1'',
                        ''db_initiated'' \<mapsto> ''1''),
       calls := calls c @ [Get ''db_initiated'', Set (autoid_key ''hospital'') ''1'',
                           Set (autoid_key ''doctor'') ''1'', Set (autoid_key ''patient'') ''1'',
                           Set (autoid_key ''diagnosis'') ''1'', Set ''db_initiated'' ''1'']\<rparr>)"
    unfolding init_db_try_def
    using d assms(2)
    by (simp add: run_get run_set call_set refused_def)
  then show ?thesis by (simp add: init_db_def)
qed

lemma booted_eq:
  "booted = empty_store\<lparr>strs := (strs empty_store)(autoid_key ''hospital'' \<mapsto> ''1'',
                        autoid_key ''doctor'' \<mapsto> ''1'', autoid_key ''patient'' \<mapsto> ''1'',
                        autoid_key ''diagnosis'' \<mapsto> ''1'', ''db_initiated'' \<mapsto> ''1''),
       calls := calls empty_store @ [Get ''db_initiated'', Set (autoid_key ''hospital'') ''1'',
                           Set (autoid_key ''doctor'') ''1'', Set (autoid_key ''patient'') ''1'',
                           Set (autoid_key ''diagnosis'') ''1'', Set ''db_initiated'' ''1'']\<rparr>"
proof -
  have a: "up empty_store 6" by (simp add: up_def empty_store_def)
  have b: "falsy (strs empty_store ''db_initiated'')" by (simp add: falsy_def empty_store_def)
  show ?thesis by (simp add: booted_def init_db_fresh [OF a b])
qed

lemma init_db_done:
  assumes "up c 1" and "\<not> falsy (strs c ''db_initiated'')"
  shows "init_db c = (Ready, attempt (Get ''db_initiated'') c)"
proof -
  from assms(1) have "\<not> refused c" by (rule up_first) simp
  with assms(2) show ?thesis
    by (simp add: init_db_def init_db_try_def bindE_def r_get_def ret_def)
qed

text \<open>
  C7: bootstrap is idempotent. \<^verbatim>\<open>init_db\<close> reads the sentinel with \<^verbatim>\<open>if not db_initiated\<close>, so
  the flag counts as absent when the key is absent or holds the empty value. With a store
  that answers: if the flag is absent, all four counters are set to 1 and the sentinel is
  set; if it is present, the only call is the read of the sentinel and nothing is written;
  a second call after a first is such a read only, and leaves the four counters as the first
  call left them.
\<close>

theorem C7_bootstrap_idempotent:
  assumes "up c 7"
  shows "(falsy (strs c ''db_initiated'') \<longrightarrow>
            fst (init_db c) = Ready \<and> (\<forall>E. counter E (snd (init_db c)) = Some ''1'') \<and>
            strs (snd (init_db c)) ''db_initiated'' = Some ''1'')
       \<and> (\<not> falsy (strs c ''db_initiated'') \<longrightarrow>
            init_db c = (Ready, attempt (Get ''db_initiated'') c))
       \<and> init_db (snd (init_db c)) = (Ready, attempt (Get ''db_initiated'') (snd (init_db c)))
       \<and> (\<forall>E. counter E (snd (init_db (snd (init_db c)))) = counter E (snd (init_db c)))"
proof -
  from assms have u6: "up c 6" and u1: "up c 1" by (rule up_mono, simp)+
  have fresh: "falsy (strs c ''db_initiated'') \<Longrightarrow>
       (\<forall>E. counter E (snd (init_db c)) = Some ''1'') \<and>
       strs (snd (init_db c)) ''db_initiated'' = Some ''1''"
  proof -
    assume f: "falsy (strs c ''db_initiated'')"
    have "\<And>E. counter E (snd (init_db c)) = Some ''1''"
    proof -
      fix E show "counter E (snd (init_db c)) = Some ''1''"
        by (cases E) (simp_all add: init_db_fresh [OF u6 f] counter_def autoid_key_def)
    qed
    then show ?thesis by (simp add: init_db_fresh [OF u6 f])
  qed
  have second: "init_db (snd (init_db c)) = (Ready, attempt (Get ''db_initiated'') (snd (init_db c)))"
  proof (cases "falsy (strs c ''db_initiated'')")
    case True
    have "up (snd (init_db c)) 1"
      using up_downs [OF assms, of "Suc (Suc (Suc (Suc (Suc (Suc 0)))))"]
      by (simp add: init_db_fresh [OF u6 True] up_def)
    moreover have "\<not> falsy (strs (snd (init_db c)) ''db_initiated'')"
      by (simp add: init_db_fresh [OF u6 True] falsy_def)
    ultimately show ?thesis by (rule init_db_done)
  next
    case False
    have "up (snd (init_db c)) 1"
      using up_downs [OF assms, of "Suc 0"]
      by (simp add: init_db_done [OF u1 False] up_def)
    moreover have "\<not> falsy (strs (snd (init_db c)) ''db_initiated'')"
      using False by (simp add: init_db_done [OF u1 False])
    ultimately show ?thesis by (rule init_db_done)
  qed
  show ?thesis
    using fresh init_db_fresh [OF u6] init_db_done [OF u1] second
    by (simp add: counter_def)
qed

lemma down_booted [simp]: "down booted = (\<lambda>t. False)"
  by (simp add: booted_eq empty_store_def)

lemma up_always: "down c = (\<lambda>t. False) \<Longrightarrow> up c n"
  by (simp add: up_def)

theorem C7_bootstrap_idempotent_witness:
  "(\<forall>E. counter E booted = Some ''1'') \<and> strs booted ''db_initiated'' = Some ''1''
   \<and> init_db booted = (Ready, attempt (Get ''db_initiated'') booted)
   \<and> (\<forall>E. counter E (snd (init_db booted)) = counter E booted)"
proof -
  have a: "up empty_store 7" by (rule up_always) (simp add: empty_store_def)
  have b: "falsy (strs empty_store ''db_initiated'')" by (simp add: falsy_def empty_store_def)
  have c: "up booted 7" by (rule up_always) simp
  have d: "\<not> falsy (strs booted ''db_initiated'')" by (simp add: booted_eq falsy_def)
  from C7_bootstrap_idempotent [OF a] b
  have 1: "(\<forall>E. counter E booted = Some ''1'') \<and> strs booted ''db_initiated'' = Some ''1''"
    unfolding booted_def by blast
  from C7_bootstrap_idempotent [OF c] d
  have 2: "init_db booted = (Ready, attempt (Get ''db_initiated'') booted)" by blast
  have 3: "\<forall>E. counter E (snd (init_db booted)) = counter E booted"
    unfolding 2 by (simp add: counter_def)
  from 1 2 3 show ?thesis by blast
qed

lemma r_sadd_Inr:
  "r_sadd key m c = (Inr w, c') \<longleftrightarrow>
     \<not> refused c \<and> w = (if m \<in> set (sets c key) then 0 else 1) \<and>
     c' = attempt (SAdd key m)
            (c\<lparr>sets := (sets c)(key := (if m \<in> set (sets c key) then sets c key
                                           else sets c key @ [m]))\<rparr>)"
  by (auto simp: r_sadd_def)

lemma r_sadd_Inl:
  "r_sadd key m c = (Inl e, c') \<longleftrightarrow> refused c \<and> e = ConnectionError \<and> c' = attempt (SAdd key m) c"
  by (auto simp: r_sadd_def)

lemma dp_try_Inl:
  "doctor_patient_try d p c = (Inl e, c') \<Longrightarrow>
     e = ConnectionError \<and> strs c' = strs c \<and> hashes c' = hashes c \<and> sets c' = sets c \<and> down c' = down c"
  by (auto simp: doctor_patient_try_def bindE_Inl r_hgetall_Inl r_hgetall_Inr r_sadd_Inl
      split: if_splits)

lemma dp_try_Inr:
  "doctor_patient_try d p c = (Inr x, c') \<Longrightarrow>
     (x = Inl (Reply 400 ''No such ID for doctor or patient'') \<and>
        (hashes c (entity_key ''patient'' p) = [] \<or> hashes c (entity_key ''doctor'' d) = []) \<and>
        c' = attempt (HGetAll (entity_key ''doctor'' d)) (attempt (HGetAll (entity_key ''patient'' p)) c))
   \<or> (x = Inr () \<and> hashes c (entity_key ''patient'' p) \<noteq> [] \<and> hashes c (entity_key ''doctor'' d) \<noteq> [] \<and>
        strs c' = strs c \<and> hashes c' = hashes c \<and> down c' = down c \<and>
        sets c' = (sets c)(doctor_patient_key d :=
             (if p \<in> set (sets c (doctor_patient_key d)) then sets c (doctor_patient_key d)
              else sets c (doctor_patient_key d) @ [p])) \<and>
        calls c' = calls c @ [HGetAll (entity_key ''patient'' p), HGetAll (entity_key ''doctor'' d),
                                SAdd (doctor_patient_key d) p])"
  by (auto simp: doctor_patient_try_def bindE_Inr r_hgetall_Inr r_sadd_Inr
      split: if_splits)

lemma doctor_patient_post_cases:
  assumes "doctor_patient_post d p c = (rep, c')"
  shows "(is_ok rep \<and> d \<noteq> [] \<and> p \<noteq> [] \<and> hashes c (entity_key ''patient'' p) \<noteq> [] \<and>
          hashes c (entity_key ''doctor'' d) \<noteq> [] \<and>
          strs c' = strs c \<and> hashes c' = hashes c \<and> down c' = down c \<and>
          sets c' = (sets c)(doctor_patient_key d :=
             (if p \<in> set (sets c (doctor_patient_key d)) then sets c (doctor_patient_key d)
              else sets c (doctor_patient_key d) @ [p])) \<and>
          calls c' = calls c @ [HGetAll (entity_key ''patient'' p), HGetAll (entity_key ''doctor'' d),
                                SAdd (doctor_patient_key d) p])
       \<or> (\<not> is_ok rep \<and> strs c' = strs c \<and> hashes c' = hashes c \<and> sets c' = sets c \<and>
           down c' = down c)"
proof (cases "d = [] \<or> p = []")
  case True
  with assms show ?thesis by (auto simp: doctor_patient_post_def is_ok_def)
next
  case False
  obtain res c1 where t: "doctor_patient_try d p c = (res, c1)"
    by (cases "doctor_patient_try d p c")
  show ?thesis
  proof (cases res)
    case (Inl e)
    from dp_try_Inl [OF t [unfolded Inl]] assms False t Inl show ?thesis
      by (auto simp: doctor_patient_post_def)
  next
    case (Inr x)
    from dp_try_Inr [OF t [unfolded Inr]] assms False t Inr show ?thesis
      by (auto simp: doctor_patient_post_def is_ok_def)
  qed
qed

lemma gen_try_missing:
  assumes "ref = Some (key, msg)" and "hashes c key = []" and "up c 2"
  shows "gen_try e ref fs ke ko c
           = (Inr (ke msg), attempt (HGetAll key) (attempt (Get (autoid_key e)) c))"
proof -
  note d = up_downs [OF assms(3)]
  from d [of 0] d [of "Suc 0"] assms(1,2) show ?thesis
    by (simp add: gen_try_def bindE_def r_get_def r_hgetall_def ret_def refused_def)
qed

lemma count_new_fresh: "count_new (fields_of r) [] = int (length (fields_of r))"
  by (cases r) simp_all

lemma write_fields_fresh: "write_fields (fields_of r) [] = fields_of r"
  by (cases r) simp_all

section \<open>The link handler, and lookups that find nothing\<close>

lemma down_create [simp]: "down (snd (create r c)) = down c"
proof -
  have "create r c = (fst (create r c), snd (create r c))" by simp
  then show ?thesis by (cases rule: create_cases) simp_all
qed

lemma down_link [simp]: "down (snd (doctor_patient_post d p c)) = down c"
proof -
  have "doctor_patient_post d p c = (fst (doctor_patient_post d p c), snd (doctor_patient_post d p c))"
    by simp
  from doctor_patient_post_cases [OF this] show ?thesis by auto
qed

section \<open>C8: linking twice\<close>

lemma smembers_members:
  "\<not> refused c \<Longrightarrow> set (projr (fst (r_smembers (doctor_patient_key d) c))) = members d c"
  by (simp add: r_smembers_def members_def)

text \<open>
  C8: the link operation is idempotent. After a link of doctor \<open>d\<close> and patient \<open>p\<close> that
  was answered with 200 (both records were present), \<open>p\<close> is a member of the set of \<open>d\<close>;
  a second link of the same pair leaves the members of \<open>d\<close>, and every other link set, as
  they are, whatever it answers, and it answers 200 again when the store answers its three
  calls.
\<close>

theorem C8_link_idempotent:
  assumes "doctor_patient_post d p c = (rep, c1)" and "is_ok rep"
  shows "p \<in> members d c1
       \<and> members d (snd (doctor_patient_post d p c1)) = members d c1
       \<and> sets (snd (doctor_patient_post d p c1)) = sets c1
       \<and> (up c1 3 \<longrightarrow> is_ok (fst (doctor_patient_post d p c1)))"
proof -
  from doctor_patient_post_cases [OF assms(1)] assms(2) have
    c1: "d \<noteq> []" "p \<noteq> []" "hashes c1 (entity_key ''patient'' p) \<noteq> []"
      "hashes c1 (entity_key ''doctor'' d) \<noteq> []"
    and m: "p \<in> set (sets c1 (doctor_patient_key d))"
    by auto
  obtain rep2 c2 where s: "doctor_patient_post d p c1 = (rep2, c2)"
    by (cases "doctor_patient_post d p c1")
  from doctor_patient_post_cases [OF s] m have same: "sets c2 = sets c1"
    by auto
  have "up c1 3 \<Longrightarrow> is_ok rep2"
  proof -
    assume u: "up c1 3"
    note d = up_downs [OF u]
    from d [of 0] d [of "Suc 0"] d [of "Suc (Suc 0)"] c1 s show "is_ok rep2"
      by (auto simp: doctor_patient_post_def doctor_patient_try_def bindE_def r_hgetall_def r_sadd_def
          ret_def refused_def is_ok_def)
  qed
  with m same s show ?thesis by (simp add: members_def)
qed

theorem C8_link_idempotent_witness:
  "''1'' \<in> members ''1'' linked_state
   \<and> members ''1'' (snd (doctor_patient_post ''1'' ''1'' linked_state)) = members ''1'' linked_state
   \<and> is_ok (fst (doctor_patient_post ''1'' ''1'' linked_state))"
proof -
  define c where "c = snd (create (NewDoctor ''X'' ''Y'' [])
        (snd (create (NewPatient ''P'' ''2000'' ''M'' ''7'') booted)))"
  have "is_ok (fst (doctor_patient_post ''1'' ''1'' (snd (create (NewDoctor ''X'' ''Y'' [])
        (snd (create (NewPatient ''P'' ''2000'' ''M'' ''7'') booted))))))"
    by code_simp
  then have ok: "is_ok (fst (doctor_patient_post ''1'' ''1'' c))" by (simp add: c_def)
  have e: "doctor_patient_post ''1'' ''1'' c = (fst (doctor_patient_post ''1'' ''1'' c), linked_state)"
    by (simp add: linked_state_def c_def)
  have u: "up linked_state 3"
    by (rule up_always) (simp add: linked_state_def del: create.simps)
  from C8_link_idempotent [OF e ok] u show ?thesis by simp
qed

section \<open>C4: the hospital of a doctor\<close>

text \<open>
  C4: a doctor create with valid surname and profession checks the hospital only when one
  is given. With a non-empty \<open>hospital_ID\<close> whose record is absent, and a store that answers
  the two reads, it answers \<open>No hospital with such ID\<close> and has written nothing. With an
  empty \<open>hospital_ID\<close>, a free record at the next identifier, a counter that can be
  incremented and a store that answers the five calls, it answers 200, and its calls are
  the read of the counter, the three field writes and the increment: no hospital is looked
  up.
\<close>

theorem C4_doctor_hospital_reference:
  assumes "surname \<noteq> []" and "profession \<noteq> []"
  shows "(hospital_ID \<noteq> [] \<and> hashes c (entity_key ''hospital'' hospital_ID) = [] \<and> up c 2 \<longrightarrow>
            doctor_post surname profession hospital_ID c
              = (Reply 400 ''No hospital with such ID'',
                 attempt (HGetAll (entity_key ''hospital'' hospital_ID))
                   (attempt (Get (autoid_key ''doctor'')) c)))
       \<and> (hashes c (record_key Doctor c) = [] \<and> incr_val (counter Doctor c) \<noteq> None \<and> up c 5 \<longrightarrow>
            fst (doctor_post surname profession [] c)
              = Reply 200 (''OK: ID '' @ decode_id (counter Doctor c) @ '' for '' @ surname)
            \<and> new_calls c (snd (doctor_post surname profession [] c))
              = [Get (autoid_key ''doctor''),
                 HSet (record_key Doctor c) ''surname'' surname,
                 HSet (record_key Doctor c) ''profession'' profession,
                 HSet (record_key Doctor c) ''hospital_ID'' [],
                 Incr (autoid_key ''doctor'')])"
proof (rule conjI; rule impI)
  assume a: "hospital_ID \<noteq> [] \<and> hashes c (entity_key ''hospital'' hospital_ID) = [] \<and> up c 2"
  with assms show "doctor_post surname profession hospital_ID c
              = (Reply 400 ''No hospital with such ID'',
                 attempt (HGetAll (entity_key ''hospital'' hospital_ID))
                   (attempt (Get (autoid_key ''doctor'')) c))"
    by (simp add: doctor_post_finish doctor_try_gen finish_def
        gen_try_missing [where key = "entity_key ''hospital'' hospital_ID"
          and msg = "''No hospital with such ID''"])
next
  assume a: "hashes c (record_key Doctor c) = [] \<and> incr_val (counter Doctor c) \<noteq> None \<and> up c 5"
  define r where "r = NewDoctor surname profession []"
  have r: "entity_of r = Doctor" "ref_of r = None" "length (fields_of r) = 3"
    "create r c = doctor_post surname profession [] c"
    "fields_of r = [(''surname'', surname), (''profession'', profession), (''hospital_ID'', [])]"
    by (simp_all add: r_def)
  from assms have acc: "accepted r c" by (simp add: r_def)
  from a obtain n where n: "incr_val (counter (entity_of r) c) = Some n" by (auto simp: r)
  from a have u: "up c (length (fields_of r) + 2 + length (ref_reads (ref_of r)))"
    by (simp add: r(2,3) ref_reads_def)
  from create_total [OF acc u n] a
  have rep: "fst (create r c) = Reply 200 (''OK: ID '' @ decode_id (counter Doctor c) @ '' for '' @ surname)"
    by (simp add: r(1) count_new_fresh) (simp add: r_def)
  have "create r c = (fst (create r c), snd (create r c))" by simp
  then have "new_calls c (snd (create r c))
      = [Get (autoid_key ''doctor''),
         HSet (record_key Doctor c) ''surname'' surname,
         HSet (record_key Doctor c) ''profession'' profession,
         HSet (record_key Doctor c) ''hospital_ID'' [],
         Incr (autoid_key ''doctor'')]"
  proof (cases rule: create_cases)
    case exn
    with rep show ?thesis by simp
  next
    case (rejected msg)
    with rep show ?thesis by simp
  next
    case (missing key msg)
    with rep show ?thesis by simp
  next
    case written
    from written(7) show ?thesis
      by (simp add: new_calls_def r(1,2,5) ref_reads_def hset_calls_def)
  qed
  with rep show "fst (doctor_post surname profession [] c)
              = Reply 200 (''OK: ID '' @ decode_id (counter Doctor c) @ '' for '' @ surname)
            \<and> new_calls c (snd (doctor_post surname profession [] c))
              = [Get (autoid_key ''doctor''),
                 HSet (record_key Doctor c) ''surname'' surname,
                 HSet (record_key Doctor c) ''profession'' profession,
                 HSet (record_key Doctor c) ''hospital_ID'' [],
                 Incr (autoid_key ''doctor'')]"
    by (simp add: r(4))
qed

theorem C4_doctor_hospital_reference_witness:
  "doctor_post ''X'' ''Y'' ''99'' booted
     = (Reply 400 ''No hospital with such ID'',
        attempt (HGetAll (entity_key ''hospital'' ''99'')) (attempt (Get (autoid_key ''doctor'')) booted))
   \<and> fst (doctor_post ''X'' ''Y'' [] booted) = Reply 200 ''OK: ID 1 for X''"
proof -
  have a: "''X'' \<noteq> []" "''Y'' \<noteq> []" by simp_all
  have b: "''99'' \<noteq> [] \<and> hashes booted (entity_key ''hospital'' ''99'') = [] \<and> up booted 2"
    by (simp add: up_always) (simp add: booted_eq empty_store_def)
  have c1: "counter Doctor booted = Some ''1''" by code_simp
  have c2: "incr_val (Some ''1'') \<noteq> None" by code_simp
  have c: "hashes booted (record_key Doctor booted) = [] \<and> incr_val (counter Doctor booted) \<noteq> None
      \<and> up booted 5"
    using c2 by (simp add: up_always c1) (simp add: booted_eq empty_store_def)
  from C4_doctor_hospital_reference [OF a, of "''99''" booted] b c show ?thesis
    by (simp add: c1 decode_id_def)
qed

section \<open>C5: references that are always checked\<close>

text \<open>
  C5: a diagnosis create that passes the field checks and whose patient record is absent
  answers \<open>No patient with such ID\<close>; an empty \<open>patient_ID\<close> is not exempt, it is refused
  by the field check before any call. A link whose doctor or patient record is absent
  answers \<open>No such ID for doctor or patient\<close>. In each case the state returned is the
  given one with the reads logged: no field, counter or link set was written. (The store
  answers the two reads.)
\<close>

theorem C5_references_always_checked:
  "(patient_ID \<noteq> [] \<and> diagnosis_type \<noteq> [] \<and> hashes c (entity_key ''patient'' patient_ID) = []
      \<and> up c 2 \<longrightarrow>
        diagnosis_post patient_ID diagnosis_type information c
          = (Reply 400 ''No patient with such ID'',
             attempt (HGetAll (entity_key ''patient'' patient_ID))
               (attempt (Get (autoid_key ''diagnosis'')) c)))
   \<and> diagnosis_post [] diagnosis_type information c
          = (Reply 400 ''Patiend ID and diagnosis type required'', c)
   \<and> (doctor_ID \<noteq> [] \<and> patient_ID \<noteq> []
      \<and> (hashes c (entity_key ''patient'' patient_ID) = [] \<or> hashes c (entity_key ''doctor'' doctor_ID) = [])
      \<and> up c 2 \<longrightarrow>
        doctor_patient_post doctor_ID patient_ID c
          = (Reply 400 ''No such ID for doctor or patient'',
             attempt (HGetAll (entity_key ''doctor'' doctor_ID))
               (attempt (HGetAll (entity_key ''patient'' patient_ID)) c)))"
proof (intro conjI impI)
  assume "patient_ID \<noteq> [] \<and> diagnosis_type \<noteq> [] \<and> hashes c (entity_key ''patient'' patient_ID) = []
      \<and> up c 2"
  then show "diagnosis_post patient_ID diagnosis_type information c
          = (Reply 400 ''No patient with such ID'',
             attempt (HGetAll (entity_key ''patient'' patient_ID))
               (attempt (Get (autoid_key ''diagnosis'')) c))"
    by (simp add: diagnosis_post_finish diagnosis_try_gen finish_def
        gen_try_missing [where key = "entity_key ''patient'' patient_ID"
          and msg = "''No patient with such ID''"])
next
  show "diagnosis_post [] diagnosis_type information c
          = (Reply 400 ''Patiend ID and diagnosis type required'', c)"
    by (simp add: diagnosis_post_def)
next
  assume a: "doctor_ID \<noteq> [] \<and> patient_ID \<noteq> []
      \<and> (hashes c (entity_key ''patient'' patient_ID) = [] \<or> hashes c (entity_key ''doctor'' doctor_ID) = [])
      \<and> up c 2"
  then have u: "up c 2" by simp
  note d = up_downs [OF u]
  from d [of 0] d [of "Suc 0"] a show "doctor_patient_post doctor_ID patient_ID c
          = (Reply 400 ''No such ID for doctor or patient'',
             attempt (HGetAll (entity_key ''doctor'' doctor_ID))
               (attempt (HGetAll (entity_key ''patient'' patient_ID)) c))"
    by (auto simp: doctor_patient_post_def doctor_patient_try_def bindE_def r_hgetall_def
        ret_def refused_def)
qed

theorem C5_references_always_checked_witness:
  "diagnosis_post ''5'' ''flu'' ''rest'' booted
     = (Reply 400 ''No patient with such ID'',
        attempt (HGetAll (entity_key ''patient'' ''5'')) (attempt (Get (autoid_key ''diagnosis'')) booted))
   \<and> doctor_patient_post ''1'' ''5'' booted
     = (Reply 400 ''No such ID for doctor or patient'',
        attempt (HGetAll (entity_key ''doctor'' ''1'')) (attempt (HGetAll (entity_key ''patient'' ''5'')) booted))"
proof -
  have h: "\<And>key. hashes booted key = []" by (simp add: booted_eq empty_store_def)
  have u: "up booted 2" by (simp add: up_always)
  from C5_references_always_checked [of "''5''" "''flu''" booted "''rest''" "''1''"] h u
  show ?thesis by simp
qed

section \<open>C9: writing a record whose fields exist\<close>

lemma up_code [code]: "up c n = list_all (\<lambda>j. \<not> down c (length (calls c) + j)) [0 ..< n]"
  by (auto simp: up_def list_all_iff)

lemma count_new_present:
  "(\<forall>f \<in> fst ` set fs. map_of h f \<noteq> None) \<Longrightarrow> count_new fs h = 0"
proof (induction fs arbitrary: h)
  case Nil
  then show ?case by simp
next
  case (Cons fv fs)
  have "\<forall>f \<in> fst ` set fs. map_of (AList.update (fst fv) (snd fv) h) f \<noteq> None"
    using Cons.prems by (auto simp: update_conv')
  from Cons.IH [OF this] Cons.prems show ?case by simp
qed

lemma write_fields_other:
  "f \<notin> fst ` set fs \<Longrightarrow> map_of (write_fields fs h) f = map_of h f"
  by (induction fs arbitrary: h) (auto simp: update_conv')

lemma write_fields_map:
  "distinct (map fst fs) \<Longrightarrow> (f, v) \<in> set fs \<Longrightarrow> map_of (write_fields fs h) f = Some v"
proof (induction fs arbitrary: h)
  case Nil
  then show ?case by simp
next
  case (Cons fv fs)
  show ?case
  proof (cases "(f, v) = fv")
    case True
    with Cons.prems(1) have "f \<notin> fst ` set fs" by force
    with True show ?thesis by (auto simp: write_fields_other update_conv')
  next
    case False
    with Cons.prems have "distinct (map fst fs)" "(f, v) \<in> set fs" by auto
    from Cons.IH [OF this] show ?thesis by simp
  qed
qed

lemma fields_distinct: "distinct (map fst (fields_of r))"
  by (cases r) simp_all

lemma fields_nonempty: "fields_of r \<noteq> []"
  by (cases r) simp_all

text \<open>
  C9: a field write to a record that has the field answers 0, although it overwrites the
  value. So a create that is accepted, meets a record with all its field names at the
  identifier it read (as after two creates read the same identifier), and whose calls the
  store answers, counts no successful write: it answers with the write count mismatch,
  although every field now holds the value it supplied.
\<close>

theorem C9_rewrite_reports_mismatch:
  "(\<not> refused c0 \<and> map_of (hashes c0 key) f \<noteq> None \<longrightarrow>
       fst (r_hset key f v c0) = Inr 0 \<and> map_of (hashes (snd (r_hset key f v c0)) key) f = Some v)
   \<and> (accepted r c \<and> up c (length (fields_of r) + 2 + length (ref_reads (ref_of r)))
        \<and> incr_val (counter (entity_of r) c) \<noteq> None
        \<and> (\<forall>f \<in> fst ` set (fields_of r). map_of (hashes c (record_key (entity_of r) c)) f \<noteq> None)
      \<longrightarrow> fst (create r c) = went_wrong
        \<and> count_new (fields_of r) (hashes c (record_key (entity_of r) c)) = 0
        \<and> (\<forall>(f, v) \<in> set (fields_of r).
              map_of (hashes (snd (create r c)) (record_key (entity_of r) c)) f = Some v))"
proof (rule conjI; rule impI)
  assume "\<not> refused c0 \<and> map_of (hashes c0 key) f \<noteq> None"
  then show "fst (r_hset key f v c0) = Inr 0 \<and> map_of (hashes (snd (r_hset key f v c0)) key) f = Some v"
    by (simp add: r_hset_def update_conv')
next
  assume a: "accepted r c \<and> up c (length (fields_of r) + 2 + length (ref_reads (ref_of r)))
        \<and> incr_val (counter (entity_of r) c) \<noteq> None
        \<and> (\<forall>f \<in> fst ` set (fields_of r). map_of (hashes c (record_key (entity_of r) c)) f \<noteq> None)"
  then obtain n where n: "incr_val (counter (entity_of r) c) = Some n" by auto
  from a have zero: "count_new (fields_of r) (hashes c (record_key (entity_of r) c)) = 0"
    by (simp add: count_new_present)
  from a have acc: "accepted r c"
    and u: "up c (length (fields_of r) + 2 + length (ref_reads (ref_of r)))" by simp_all
  from create_total [OF acc u n] zero fields_nonempty [of r]
  have rep: "fst (create r c) = went_wrong" by simp
  have "create r c = (fst (create r c), snd (create r c))" by simp
  then have "\<forall>(f, v) \<in> set (fields_of r).
              map_of (hashes (snd (create r c)) (record_key (entity_of r) c)) f = Some v"
  proof (cases rule: create_cases)
    case exn
    with rep show ?thesis by simp
  next
    case (rejected msg)
    with rep show ?thesis by (simp add: went_wrong_def)
  next
    case (missing key msg)
    with rep show ?thesis by (simp add: went_wrong_def)
  next
    case written
    from written(4) show ?thesis
      by (auto simp: write_fields_map [OF fields_distinct])
  qed
  with rep zero show "fst (create r c) = went_wrong
        \<and> count_new (fields_of r) (hashes c (record_key (entity_of r) c)) = 0
        \<and> (\<forall>(f, v) \<in> set (fields_of r).
              map_of (hashes (snd (create r c)) (record_key (entity_of r) c)) f = Some v)"
    by simp
qed

theorem C9_rewrite_reports_mismatch_witness:
  "fst (r_hset ''hospital:1'' ''name'' ''C'' (snd (create hospital_A (booted_failing 11)))) = Inr 0
   \<and> fst (create hospital_B (snd (create hospital_A (booted_failing 11)))) = went_wrong
   \<and> hashes (snd (create hospital_B (snd (create hospital_A (booted_failing 11))))) ''hospital:1''
       = fields_of hospital_B"
proof -
  have g: "\<not> refused (snd (create hospital_A (booted_failing 11)))
      \<and> map_of (hashes (snd (create hospital_A (booted_failing 11))) ''hospital:1'') ''name'' \<noteq> None"
    by code_simp
  have h: "accepted hospital_B (snd (create hospital_A (booted_failing 11)))
      \<and> up (snd (create hospital_A (booted_failing 11)))
          (length (fields_of hospital_B) + 2 + length (ref_reads (ref_of hospital_B)))
      \<and> incr_val (counter (entity_of hospital_B) (snd (create hospital_A (booted_failing 11)))) \<noteq> None
      \<and> (\<forall>f \<in> fst ` set (fields_of hospital_B).
            map_of (hashes (snd (create hospital_A (booted_failing 11)))
              (record_key (entity_of hospital_B) (snd (create hospital_A (booted_failing 11))))) f \<noteq> None)"
    by code_simp
  have e: "hashes (snd (create hospital_B (snd (create hospital_A (booted_failing 11))))) ''hospital:1''
       = fields_of hospital_B" by code_simp
  from C9_rewrite_reports_mismatch [of "snd (create hospital_A (booted_failing 11))"
      "''hospital:1''" "''name''" "''C''" hospital_B "snd (create hospital_A (booted_failing 11))"] g h e
  show ?thesis by simp
qed

section \<open>C2: listing after creates\<close>

lemma autoid_key_inj [simp]:
  "autoid_key (entity_name E) = autoid_key (entity_name E') \<longleftrightarrow> E = E'"
  by (cases E; cases E'; simp add: autoid_key_def)

lemma entity_key_neq: "E \<noteq> E' \<Longrightarrow> entity_key (entity_name E) i \<noteq> entity_key (entity_name E') j"
  by (cases E; cases E'; simp add: entity_key_def)

lemma entity_key_inj [simp]: "entity_key e i = entity_key e j \<longleftrightarrow> i = j"
  by (simp add: entity_key_def)

lemma is_exn_not_ok: "is_exn rep \<Longrightarrow> \<not> is_ok rep"
  by (auto simp: is_exn_def is_ok_def redis_refused_def split: reply.splits)

lemma not_ok_400 [simp]: "\<not> is_ok (Reply 400 msg)"
  by (simp add: is_ok_def)

lemma fetch_loop_up:
  "up c (length js) \<Longrightarrow>
     fetch_loop e js items c =
       (Inr (items @ filter (\<lambda>h. h \<noteq> []) (map (\<lambda>i. hashes c (entity_key e (show_int (int i)))) js)),
        c\<lparr>calls := calls c @ map (\<lambda>i. HGetAll (entity_key e (show_int (int i)))) js\<rparr>)"
proof (induction js arbitrary: items c)
  case Nil
  then show ?case by (simp add: ret_def)
next
  case (Cons j js)
  from Cons.prems have r: "\<not> refused c" by (rule up_first) simp
  have u: "up (attempt (HGetAll (entity_key e (show_nat j))) c) (length js)"
    using Cons.prems by (rule up_attempt) simp
  show ?case
    by (simp add: run_hgetall [OF r] Cons.IH [OF u])
qed

lemma fetch_hash_items_counter:
  assumes "counter E c = Some (show_nat n)" and "up c (Suc n)"
  shows "fst (fetch_hash_items (entity_name E) c) =
     Inr (filter (\<lambda>h. h \<noteq> []) (map (\<lambda>i. hashes c (entity_key (entity_name E) (show_nat i))) [0 ..< n]))"
proof -
  from assms(2) have r: "\<not> refused c" by (rule up_first) simp
  have u: "up (attempt (Get (autoid_key (entity_name E))) c) (length [0 ..< n])"
    using assms(2) by (rule up_attempt) simp
  from assms(1) show ?thesis
    by (simp add: fetch_hash_items_def run_get [OF r] counter_def show_nat_nonempty
        py_int_show_nat fetch_loop_up [OF u])
qed

lemma holds_other:
  assumes h: "holds E c recs" and r: "create r c = (rep, c')" and ne: "entity_of r \<noteq> E"
    and ok: "is_ok rep"
  shows "holds E c' recs"
  using r
proof (cases rule: create_cases)
  case exn
  with ok show ?thesis by (simp add: is_exn_not_ok)
next
  case (rejected msg)
  with ok show ?thesis by simp
next
  case (missing key msg)
  with ok show ?thesis by simp
next
  case written
  from written(3) ne have s: "counter E c' = counter E c"
    by (auto simp: counter_def)
  from written(4) ne have "\<And>j. hashes c' (entity_key (entity_name E) (show_nat j))
      = hashes c (entity_key (entity_name E) (show_nat j))"
    by (simp add: record_key_def entity_key_neq)
  with s h show ?thesis by (simp add: holds_def)
qed

lemma holds_same:
  assumes h: "holds E c recs" and r: "create r c = (rep, c')" and e: "entity_of r = E"
    and ok: "is_ok rep"
  shows "holds E c' (recs @ [fields_of r])"
  using r
proof (cases rule: create_cases)
  case exn
  with ok show ?thesis by (simp add: is_exn_not_ok)
next
  case (rejected msg)
  with ok show ?thesis by simp
next
  case (missing key msg)
  with ok show ?thesis by simp
next
  case written
  from h have cnt: "counter E c = Some (show_nat (Suc (length recs)))" by (simp add: holds_def)
  have rk: "record_key E c = entity_key (entity_name E) (show_nat (Suc (length recs)))"
    by (simp add: record_key_def cnt)
  from h have free: "hashes c (record_key E c) = []" by (simp add: holds_def rk)
  from written(3) obtain n where n: "incr_val (counter E c) = Some n"
    and s: "strs c' = (strs c)(autoid_key (entity_name E) \<mapsto> show_int n)"
    using e by auto
  from n cnt have nn: "n = int (Suc (Suc (length recs)))"
    by (simp add: incr_val_show_nat split: if_splits)
  have n': "show_int n = show_nat (Suc (Suc (length recs)))"
    unfolding nn by (rule show_int_nat)
  from s n' have c1: "counter E c' = Some (show_nat (Suc (length (recs @ [fields_of r]))))"
    by (simp add: counter_def)
  from written(4) e free have hs: "hashes c' = (hashes c)(record_key E c := fields_of r)"
    by (simp add: write_fields_fresh)
  have "\<And>j. hashes c' (entity_key (entity_name E) (show_nat j)) =
            (if 1 \<le> j \<and> j \<le> length (recs @ [fields_of r]) then (recs @ [fields_of r]) ! (j - 1) else [])"
  proof -
    fix j
    show "hashes c' (entity_key (entity_name E) (show_nat j)) =
            (if 1 \<le> j \<and> j \<le> length (recs @ [fields_of r]) then (recs @ [fields_of r]) ! (j - 1) else [])"
    proof (cases "j = Suc (length recs)")
      case True
      then show ?thesis by (simp add: hs rk)
    next
      case False
      then have "show_nat j \<noteq> show_nat (Suc (length recs))" using show_nat_inj by blast
      with False h show ?thesis
        by (auto simp: hs rk holds_def nth_append)
    qed
  qed
  with c1 show ?thesis by (simp add: holds_def)
qed

lemma holds_run:
  assumes "holds E c recs" and "\<forall>rep \<in> set (replies rs c). is_ok rep"
  shows "holds E (run rs c) (recs @ map fields_of (filter (\<lambda>r. entity_of r = E) rs))"
  using assms
proof (induction rs arbitrary: c recs)
  case Nil
  then show ?case by simp
next
  case (Cons r rs)
  obtain rep c' where r: "create r c = (rep, c')" by (cases "create r c")
  from Cons.prems(2) r have ok: "is_ok rep" and rest: "\<forall>rep \<in> set (replies rs c'). is_ok rep"
    by simp_all
  show ?case
  proof (cases "entity_of r = E")
    case True
    from holds_same [OF Cons.prems(1) r True ok] have "holds E c' (recs @ [fields_of r])" .
    from Cons.IH [OF this rest] True r show ?thesis by simp
  next
    case False
    from holds_other [OF Cons.prems(1) r False ok] have "holds E c' recs" .
    from Cons.IH [OF this rest] False r show ?thesis by simp
  qed
qed

lemma map_shifted:
  "map (\<lambda>j. if Suc 0 \<le> j \<and> j \<le> length xs then xs ! (j - 1) else []) [0 ..< Suc (length xs)] = [] # xs"
proof -
  have "[0 ..< Suc (length xs)] = 0 # map Suc [0 ..< length xs]"
    by (simp add: upt_conv_Cons map_Suc_upt del: upt_Suc)
  then have "map (\<lambda>j. if Suc 0 \<le> j \<and> j \<le> length xs then xs ! (j - 1) else []) [0 ..< Suc (length xs)]
      = [] # map (\<lambda>i. xs ! i) [0 ..< length xs]"
    by (simp add: comp_def del: upt_Suc)
  then show ?thesis by (simp add: map_nth del: upt_Suc)
qed

lemma holds_list:
  assumes "holds E c recs" and "\<forall>x \<in> set recs. x \<noteq> []" and "up c (length recs + 2)"
  shows "fst (fetch_hash_items (entity_name E) c) = Inr recs"
proof -
  from assms(1) have cnt: "counter E c = Some (show_nat (Suc (length recs)))"
    and hs: "\<And>j. hashes c (entity_key (entity_name E) (show_nat j)) =
            (if 1 \<le> j \<and> j \<le> length recs then recs ! (j - 1) else [])"
    by (simp_all add: holds_def)
  from assms(3) have u: "up c (Suc (Suc (length recs)))" by simp
  from assms(2) have f: "filter (\<lambda>h. h \<noteq> []) recs = recs" by (simp add: filter_id_conv)
  show ?thesis
    by (simp add: fetch_hash_items_counter [OF cnt u] hs map_shifted f del: upt_Suc)
qed

lemma down_run [simp]: "down (run rs c) = down c"
  by (induction rs arbitrary: c) (simp_all del: create.simps)

text \<open>
  C2: start in a state where the counter of type \<open>E\<close> is 1 and no record of type \<open>E\<close>
  exists, as after bootstrap. After a run of creates (of any types) that were all answered
  with 200, with a store that answers the calls of the list operation, \<^verbatim>\<open>_fetch_hash_items\<close>
  for \<open>E\<close> returns exactly the records of the creates of type \<open>E\<close>, in the order of the
  creates, each the fields that its create supplied in the order it wrote them; the record
  of the \<open>j\<close>-th of them is stored under the identifier \<open>j\<close>, so the order is the ascending
  order of the identifiers.
\<close>

theorem C2_list_after_creates:
  assumes "counter E c = Some ''1''"
    and "\<forall>i. hashes c (entity_key (entity_name E) i) = []"
    and "\<forall>rep \<in> set (replies rs c). is_ok rep"
    and "up (run rs c) (length (filter (\<lambda>r. entity_of r = E) rs) + 2)"
  shows "fst (fetch_hash_items (entity_name E) (run rs c))
           = Inr (map fields_of (filter (\<lambda>r. entity_of r = E) rs))
       \<and> (\<forall>j < length (filter (\<lambda>r. entity_of r = E) rs).
            hashes (run rs c) (entity_key (entity_name E) (show_nat (Suc j)))
              = fields_of (filter (\<lambda>r. entity_of r = E) rs ! j))"
proof -
  from assms(1,2) have "holds E c []"
    by (simp add: holds_def show_nat_1)
  from holds_run [OF this assms(3)]
  have h: "holds E (run rs c) (map fields_of (filter (\<lambda>r. entity_of r = E) rs))" by simp
  have ne: "\<forall>x \<in> set (map fields_of (filter (\<lambda>r. entity_of r = E) rs)). x \<noteq> []"
    by (simp add: fields_nonempty)
  from assms(4) have u: "up (run rs c)
      (length (map fields_of (filter (\<lambda>r. entity_of r = E) rs)) + 2)" by simp
  from h have "\<forall>j < length (filter (\<lambda>r. entity_of r = E) rs).
            hashes (run rs c) (entity_key (entity_name E) (show_nat (Suc j)))
              = fields_of (filter (\<lambda>r. entity_of r = E) rs ! j)"
    by (simp add: holds_def)
  with holds_list [OF h ne u] show ?thesis by simp
qed

theorem C2_list_after_creates_witness:
  "fst (fetch_hash_items ''hospital'' (run [hospital_A, NewDoctor ''X'' ''Y'' ''1'', hospital_B] booted))
     = Inr [fields_of hospital_A, fields_of hospital_B]"
proof -
  have a: "counter Hospital booted = Some ''1''" by code_simp
  have b: "\<forall>i. hashes booted (entity_key (entity_name Hospital) i) = []"
    by (simp add: booted_eq empty_store_def)
  have c: "\<forall>rep \<in> set (replies [hospital_A, NewDoctor ''X'' ''Y'' ''1'', hospital_B] booted). is_ok rep"
    by code_simp
  have d: "up (run [hospital_A, NewDoctor ''X'' ''Y'' ''1'', hospital_B] booted)
      (length (filter (\<lambda>r. entity_of r = Hospital) [hospital_A, NewDoctor ''X'' ''Y'' ''1'', hospital_B]) + 2)"
    by (rule up_always) (simp only: down_run down_booted)
  from C2_list_after_creates [OF a b c d] show ?thesis
    by (simp add: hospital_A_def hospital_B_def)
qed

section \<open>C3: the counter and the identifiers issued\<close>













end
